theory Spec2Isabelle
  imports Main
begin

section \<open>Static asset publisher (docs/hooks.py)\<close>

text \<open>
  The hook \<open>copy_static_files\<close> copies the directories \<open>build\<close> and \<open>demos\<close> into the
  sub-directories \<open>dist\<close> and \<open>demos\<close> of the site directory. Its three functions are
  embedded below over a model of the file system and of the library functions they call
  (\<open>os.path.join\<close>, \<open>os.makedirs\<close>, \<open>os.listdir\<close>, \<open>os.path.isdir\<close>,
  \<open>shutil.copytree\<close>, \<open>shutil.copy2\<close>). An exception is a value \<open>Inl e\<close>; every
  operation returns its result together with the state it leaves behind, so that what
  was written before an exception stays written.
\<close>

subsection \<open>Path names (posixpath)\<close>

definition sep :: char where
  "sep = CHR ''/''"

definition startswith_sep :: "string \<Rightarrow> bool" where
  "startswith_sep p = (case p of [] \<Rightarrow> False | c # _ \<Rightarrow> c = sep)"

definition endswith_sep :: "string \<Rightarrow> bool" where
  "endswith_sep p = (p \<noteq> [] \<and> last p = sep)"

text \<open>\<open>posixpath.join(a, b)\<close> on two strings.\<close>

definition path_join :: "string \<Rightarrow> string \<Rightarrow> string" where
  "path_join a b =
     (if startswith_sep b \<or> a = [] then b
      else if endswith_sep a then a @ b
      else a @ [sep] @ b)"

definition rstrip_sep :: "string \<Rightarrow> string" where
  "rstrip_sep p = rev (dropWhile (\<lambda>c. c = sep) (rev p))"

text \<open>
  \<open>posixpath.split(p)\<close>: the tail is what follows the last slash; the head is what
  precedes it, without its trailing slashes unless it consists of slashes only.
\<close>

definition path_split :: "string \<Rightarrow> string \<times> string" where
  "path_split p =
     (let tail = rev (takeWhile (\<lambda>c. c \<noteq> sep) (rev p));
          head = rev (dropWhile (\<lambda>c. c \<noteq> sep) (rev p))
      in (if head \<noteq> [] \<and> head \<noteq> replicate (length head) sep then rstrip_sep head else head,
          tail))"

definition basename :: "string \<Rightarrow> string" where
  "basename p = rev (takeWhile (\<lambda>c. c \<noteq> sep) (rev p))"

text \<open>The components of a path name, as the kernel reads them: the pieces between slashes.\<close>

fun components_acc :: "string \<Rightarrow> string \<Rightarrow> string list" where
  "components_acc acc [] = [rev acc]"
| "components_acc acc (c # cs) =
     (if c = sep then rev acc # components_acc [] cs else components_acc (c # acc) cs)"

definition components :: "string \<Rightarrow> string list" where
  "components p = components_acc [] p"

subsection \<open>Errors\<close>

datatype error =
    KeyError
  | TypeError
  | RecursionError
  | FileNotFoundError
  | FileExistsError
  | NotADirectoryError
  | IsADirectoryError
  | TooManyLinks
  | SameFileError
  | ShutilError "(string \<times> string \<times> error) list"

subsection \<open>The file system\<close>

text \<open>
  An object is a regular file (content and metadata), a directory (metadata) or a
  symbolic link (its target, a path name). The file system maps the canonical absolute
  path of an object, the list of names from the root, to the object; the order of the
  list is the order in which a directory is listed. The root always exists.
  Metadata is what \<open>shutil.copystat\<close> transfers (mode and times), kept abstract.
\<close>

type_synonym path = "string list"

datatype inode = File string nat | Dir nat | Link string

type_synonym filesys = "(path \<times> inode) list"

text \<open>
  What the library functions see: the file system and the working directory, where
  relative names start.
\<close>

record world =
  files :: filesys
  cwd :: path

definition inode_at :: "filesys \<Rightarrow> path \<Rightarrow> inode option" where
  "inode_at fs p = (if p = [] then Some (Dir 0) else map_of fs p)"

text \<open>
  Path resolution from the directory \<open>cur\<close>. Every component is looked up in a
  directory; \<open>.\<close> and the empty component stay, \<open>..\<close> goes up, a symbolic link is replaced
  by its target (at most \<open>fuel\<close> times, then ELOOP). The result is the canonical path of
  the last component and the object there, \<open>None\<close> when only the last component is
  missing. With \<open>follow = False\<close> a link in the last component is not followed.
\<close>

function walk :: "filesys \<Rightarrow> bool \<Rightarrow> nat \<Rightarrow> path \<Rightarrow> string list \<Rightarrow> error + (path \<times> inode option)" where
  "walk fs follow fuel cur [] = Inr (cur, inode_at fs cur)"
| "walk fs follow fuel cur (c # cs) =
     (case inode_at fs cur of
        None \<Rightarrow> Inl FileNotFoundError
      | Some (File _ _) \<Rightarrow> Inl NotADirectoryError
      | Some (Link _) \<Rightarrow> Inl NotADirectoryError
      | Some (Dir _) \<Rightarrow>
          if c = [] \<or> c = ''.'' then walk fs follow fuel cur cs
          else if c = ''..'' then walk fs follow fuel (butlast cur) cs
          else (case inode_at fs (cur @ [c]) of
                  None \<Rightarrow> if cs = [] then Inr (cur @ [c], None) else Inl FileNotFoundError
                | Some (Link t) \<Rightarrow>
                    if cs = [] \<and> \<not> follow then Inr (cur @ [c], Some (Link t))
                    else (case fuel of
                            0 \<Rightarrow> Inl TooManyLinks
                          | Suc n \<Rightarrow>
                              walk fs follow n (if startswith_sep t then [] else cur)
                                (components t @ cs))
                | Some _ \<Rightarrow> walk fs follow fuel (cur @ [c]) cs))"
  by pat_completeness auto
termination
  by (relation "measures [\<lambda>(fs, follow, fuel, cur, cs). fuel, \<lambda>(fs, follow, fuel, cur, cs). length cs]") auto

definition max_links :: nat where
  "max_links = 40"

definition resolve :: "world \<Rightarrow> bool \<Rightarrow> string \<Rightarrow> error + (path \<times> inode option)" where
  "resolve st follow p =
     (if p = [] then Inl FileNotFoundError
      else walk (files st) follow max_links (if startswith_sep p then [] else cwd st) (components p))"

subsection \<open>System calls\<close>

fun fs_put :: "path \<Rightarrow> inode \<Rightarrow> filesys \<Rightarrow> filesys" where
  "fs_put p n [] = [(p, n)]"
| "fs_put p n ((q, m) # fs) = (if q = p then (p, n) # fs else (q, m) # fs_put p n fs)"

definition children :: "filesys \<Rightarrow> path \<Rightarrow> string list" where
  "children fs q = remdups (map (\<lambda>(k, n). last k) (filter (\<lambda>(k, n). k \<noteq> [] \<and> butlast k = q) fs))"

definition default_meta :: nat where
  "default_meta = 0"

definition os_path_exists :: "world \<Rightarrow> string \<Rightarrow> bool" where
  "os_path_exists st p = (case resolve st True p of Inr (q, Some n) \<Rightarrow> True | _ \<Rightarrow> False)"

definition os_path_isdir :: "world \<Rightarrow> string \<Rightarrow> bool" where
  "os_path_isdir st p = (case resolve st True p of Inr (q, Some (Dir m)) \<Rightarrow> True | _ \<Rightarrow> False)"

definition os_path_islink :: "world \<Rightarrow> string \<Rightarrow> bool" where
  "os_path_islink st p = (case resolve st False p of Inr (q, Some (Link t)) \<Rightarrow> True | _ \<Rightarrow> False)"

definition os_path_samefile :: "world \<Rightarrow> string \<Rightarrow> string \<Rightarrow> bool" where
  "os_path_samefile st a b =
     (case (resolve st True a, resolve st True b) of
        (Inr (p, Some n), Inr (q, Some m)) \<Rightarrow> p = q
      | _ \<Rightarrow> False)"

definition os_listdir :: "world \<Rightarrow> string \<Rightarrow> error + string list" where
  "os_listdir st p =
     (case resolve st True p of
        Inl e \<Rightarrow> Inl e
      | Inr (q, None) \<Rightarrow> Inl FileNotFoundError
      | Inr (q, Some (Dir m)) \<Rightarrow> Inr (children (files st) q)
      | Inr (q, Some _) \<Rightarrow> Inl NotADirectoryError)"

definition os_readlink :: "world \<Rightarrow> string \<Rightarrow> error + string" where
  "os_readlink st p =
     (case resolve st False p of
        Inl e \<Rightarrow> Inl e
      | Inr (q, Some (Link t)) \<Rightarrow> Inr t
      | Inr (q, None) \<Rightarrow> Inl FileNotFoundError
      | Inr (q, Some _) \<Rightarrow> Inl TypeError)"

text \<open>
  Creating an object: the parent is resolved, the last component must not exist (a
  link there is not followed). Trailing slashes do not count for \<open>mkdir\<close>.
\<close>

definition create :: "string \<Rightarrow> inode \<Rightarrow> world \<Rightarrow> (error + unit) \<times> world" where
  "create p n st =
     (case resolve st False p of
        Inl e \<Rightarrow> (Inl e, st)
      | Inr (q, Some m) \<Rightarrow> (Inl FileExistsError, st)
      | Inr (q, None) \<Rightarrow> (Inr (), st\<lparr>files := fs_put q n (files st)\<rparr>))"

definition os_mkdir :: "string \<Rightarrow> world \<Rightarrow> (error + unit) \<times> world" where
  "os_mkdir p st = create (if rstrip_sep p = [] then p else rstrip_sep p) (Dir default_meta) st"

definition os_symlink :: "string \<Rightarrow> string \<Rightarrow> world \<Rightarrow> (error + unit) \<times> world" where
  "os_symlink target p st = create p (Link target) st"

text \<open>\<open>open(p, 'rb')\<close> and reading everything.\<close>

definition read_file :: "world \<Rightarrow> string \<Rightarrow> error + string" where
  "read_file st p =
     (case resolve st True p of
        Inl e \<Rightarrow> Inl e
      | Inr (q, Some (File c m)) \<Rightarrow> Inr c
      | Inr (q, Some (Dir m)) \<Rightarrow> Inl IsADirectoryError
      | Inr (q, _) \<Rightarrow> Inl FileNotFoundError)"

text \<open>\<open>open(p, 'wb')\<close>, writing the content and closing: creates or truncates.\<close>

definition write_file :: "string \<Rightarrow> string \<Rightarrow> world \<Rightarrow> (error + unit) \<times> world" where
  "write_file p c st =
     (case resolve st True p of
        Inl e \<Rightarrow> (Inl e, st)
      | Inr (q, None) \<Rightarrow> (Inr (), st\<lparr>files := fs_put q (File c default_meta) (files st)\<rparr>)
      | Inr (q, Some (File c' m)) \<Rightarrow> (Inr (), st\<lparr>files := fs_put q (File c m) (files st)\<rparr>)
      | Inr (q, Some (Dir m)) \<Rightarrow> (Inl IsADirectoryError, st)
      | Inr (q, Some (Link t)) \<Rightarrow> (Inl TooManyLinks, st))"

subsection \<open>os.makedirs\<close>

definition makedirs_split :: "string \<Rightarrow> string \<times> string" where
  "makedirs_split name =
     (case path_split name of (head, tail) \<Rightarrow> if tail = [] then path_split head else (head, tail))"

lemma path_split_length:
  "path_split p = (h, t) \<Longrightarrow> length h + length t \<le> length p"
proof -
  assume a: "path_split p = (h, t)"
  let ?d = "dropWhile (\<lambda>c. c \<noteq> sep) (rev p)"
  let ?t = "takeWhile (\<lambda>c. c \<noteq> sep) (rev p)"
  have t: "t = rev ?t" using a by (simp add: path_split_def Let_def)
  have "length h \<le> length ?d"
  proof -
    have "length (rstrip_sep (rev ?d)) \<le> length ?d"
      by (simp add: rstrip_sep_def length_dropWhile_le)
    then show ?thesis using a by (auto simp: path_split_def Let_def split: if_splits)
  qed
  moreover have "length ?t + length ?d = length p"
    by (metis length_append length_rev takeWhile_dropWhile_id)
  ultimately show ?thesis using t by simp
qed

lemma makedirs_split_shorter:
  assumes "makedirs_split name = (head, tail)" and "tail \<noteq> []"
  shows "length head < length name"
proof (cases "path_split name")
  case (Pair h t)
  show ?thesis
  proof (cases "t = []")
    case True
    then have "path_split h = (head, tail)" using assms(1) Pair by (simp add: makedirs_split_def)
    then have "length head + length tail \<le> length h" by (rule path_split_length)
    moreover have "length h + length t \<le> length name" using Pair by (rule path_split_length)
    ultimately show ?thesis using assms(2) by (cases tail) auto
  next
    case False
    then have "h = head" "t = tail" using assms(1) Pair by (simp_all add: makedirs_split_def)
    moreover have "length h + length t \<le> length name" using Pair by (rule path_split_length)
    ultimately show ?thesis using assms(2) by (cases tail) auto
  qed
qed

text \<open>The last step of \<open>os.makedirs\<close>: \<open>mkdir\<close>, forgiving a directory that is there.\<close>

definition makedirs_leaf :: "string \<Rightarrow> bool \<Rightarrow> world \<Rightarrow> (error + unit) \<times> world" where
  "makedirs_leaf name exist_ok st =
     (case os_mkdir name st of
        (Inr u, st1) \<Rightarrow> (Inr (), st1)
      | (Inl e, st1) \<Rightarrow>
          if exist_ok \<and> os_path_isdir st1 name then (Inr (), st1) else (Inl e, st1))"

function os_makedirs :: "string \<Rightarrow> bool \<Rightarrow> world \<Rightarrow> (error + unit) \<times> world" where
  "os_makedirs name exist_ok st =
     (case makedirs_split name of
        (head, tail) \<Rightarrow>
          if head \<noteq> [] \<and> tail \<noteq> [] \<and> \<not> os_path_exists st head then
            (case os_makedirs head exist_ok st of
               (Inl e, st1) \<Rightarrow>
                 if e = FileExistsError then
                   (if tail = ''.'' then (Inr (), st1) else makedirs_leaf name exist_ok st1)
                 else (Inl e, st1)
             | (Inr u, st1) \<Rightarrow>
                 if tail = ''.'' then (Inr (), st1) else makedirs_leaf name exist_ok st1)
          else makedirs_leaf name exist_ok st)"
  by pat_completeness auto
termination
  by (relation "measure (\<lambda>(name, exist_ok, st). length name)")
     (auto dest: makedirs_split_shorter [OF sym])

declare os_makedirs.simps [simp del]

subsection \<open>shutil\<close>

fun meta_of :: "inode \<Rightarrow> nat" where
  "meta_of (File c m) = m"
| "meta_of (Dir m) = m"
| "meta_of (Link t) = default_meta"

fun set_meta :: "nat \<Rightarrow> inode \<Rightarrow> inode" where
  "set_meta m (File c m') = File c m"
| "set_meta m (Dir m') = Dir m"
| "set_meta m (Link t) = Link t"

text \<open>
  \<open>shutil.copystat(src, dst, follow_symlinks)\<close>: when links are not to be followed
  and both names are links, the links themselves are handled, which carry no metadata
  here.
\<close>

definition shutil_copystat :: "string \<Rightarrow> string \<Rightarrow> bool \<Rightarrow> world \<Rightarrow> (error + unit) \<times> world" where
  "shutil_copystat src dst follow_symlinks st =
     (if \<not> follow_symlinks \<and> os_path_islink st src \<and> os_path_islink st dst then (Inr (), st)
      else
        (case resolve st True src of
           Inl e \<Rightarrow> (Inl e, st)
         | Inr (p, None) \<Rightarrow> (Inl FileNotFoundError, st)
         | Inr (p, Some n) \<Rightarrow>
             (case resolve st True dst of
                Inl e \<Rightarrow> (Inl e, st)
              | Inr (q, None) \<Rightarrow> (Inl FileNotFoundError, st)
              | Inr (q, Some n') \<Rightarrow>
                  (Inr (), st\<lparr>files := fs_put q (set_meta (meta_of n) n') (files st)\<rparr>))))"

text \<open>\<open>shutil.copyfile(src, dst)\<close>, links followed.\<close>

definition shutil_copyfile :: "string \<Rightarrow> string \<Rightarrow> world \<Rightarrow> (error + unit) \<times> world" where
  "shutil_copyfile src dst st =
     (if os_path_samefile st src dst then (Inl SameFileError, st)
      else
        (case read_file st src of
           Inl e \<Rightarrow> (Inl e, st)
         | Inr c \<Rightarrow> write_file dst c st))"

text \<open>\<open>shutil.copy2(src, dst)\<close>: a destination that is a directory receives the file inside it.\<close>

definition shutil_copy2 :: "string \<Rightarrow> string \<Rightarrow> world \<Rightarrow> (error + unit) \<times> world" where
  "shutil_copy2 src dst st =
     (let dst' = (if os_path_isdir st dst then path_join dst (basename src) else dst)
      in (case shutil_copyfile src dst' st of
            (Inl e, st1) \<Rightarrow> (Inl e, st1)
          | (Inr u, st1) \<Rightarrow> shutil_copystat src dst' True st1))"

text \<open>The exceptions that \<open>shutil.copytree\<close> collects: \<open>OSError\<close> and its subclasses.\<close>

fun is_oserror :: "error \<Rightarrow> bool" where
  "is_oserror KeyError = False"
| "is_oserror TypeError = False"
| "is_oserror RecursionError = False"
| "is_oserror e = True"

type_synonym ignore_fn = "string \<Rightarrow> string list \<Rightarrow> string list"

text \<open>
  \<open>shutil.copytree(src, dst, symlinks, ignore)\<close> with \<open>dirs_exist_ok=False\<close>: the source is
  listed, the destination is created and must not exist, every entry is copied; an
  \<open>OSError\<close> on an entry is recorded and the copy goes on, and the recorded errors are
  raised together at the end. The first argument bounds the nesting of calls: beyond it
  the interpreter raises \<open>RecursionError\<close>, which nothing catches. (A \<open>SameFileError\<close> on
  an entry is recorded as one error here; the library records the characters of its
  message.)
\<close>

fun shutil_copytree ::
    "nat \<Rightarrow> string \<Rightarrow> string \<Rightarrow> bool \<Rightarrow> ignore_fn option \<Rightarrow> world \<Rightarrow> (error + unit) \<times> world"
  and copytree_entries ::
    "nat \<Rightarrow> string \<Rightarrow> string \<Rightarrow> bool \<Rightarrow> ignore_fn option \<Rightarrow> string list \<Rightarrow>
       (string \<times> string \<times> error) list \<Rightarrow> world \<Rightarrow> (error + (string \<times> string \<times> error) list) \<times> world"
where
  "shutil_copytree 0 src dst symlinks ignore st = (Inl RecursionError, st)"
| "shutil_copytree (Suc n) src dst symlinks ignore st =
     (case os_listdir st src of
        Inl e \<Rightarrow> (Inl e, st)
      | Inr entries \<Rightarrow>
          (let ignored_names = (case ignore of None \<Rightarrow> [] | Some f \<Rightarrow> f src entries)
           in (case os_makedirs dst False st of
                 (Inl e, st1) \<Rightarrow> (Inl e, st1)
               | (Inr u, st1) \<Rightarrow>
                   (case copytree_entries n src dst symlinks ignore
                           (filter (\<lambda>x. x \<notin> set ignored_names) entries) [] st1 of
                      (Inl e, st2) \<Rightarrow> (Inl e, st2)
                    | (Inr errors, st2) \<Rightarrow>
                        (case shutil_copystat src dst True st2 of
                           (Inl e, st3) \<Rightarrow> (Inl (ShutilError (errors @ [(src, dst, e)])), st3)
                         | (Inr u, st3) \<Rightarrow>
                             if errors \<noteq> [] then (Inl (ShutilError errors), st3)
                             else (Inr (), st3))))))"
| "copytree_entries n src dst symlinks ignore [] errors st = (Inr errors, st)"
| "copytree_entries n src dst symlinks ignore (name # names) errors st =
     (let srcname = path_join src name;
          dstname = path_join dst name
      in (case (if os_path_islink st srcname then
                  (if symlinks then
                     (case os_readlink st srcname of
                        Inl e \<Rightarrow> (Inl e, st)
                      | Inr linkto \<Rightarrow>
                          (case os_symlink linkto dstname st of
                             (Inl e, st1) \<Rightarrow> (Inl e, st1)
                           | (Inr u, st1) \<Rightarrow> shutil_copystat srcname dstname False st1))
                   else if os_path_isdir st srcname then
                     shutil_copytree n srcname dstname symlinks ignore st
                   else shutil_copy2 srcname dstname st)
                else if os_path_isdir st srcname then
                  shutil_copytree n srcname dstname symlinks ignore st
                else shutil_copy2 srcname dstname st) of
            (Inr u, st1) \<Rightarrow> copytree_entries n src dst symlinks ignore names errors st1
          | (Inl (ShutilError es), st1) \<Rightarrow>
              copytree_entries n src dst symlinks ignore names (errors @ es) st1
          | (Inl e, st1) \<Rightarrow>
              if is_oserror e then
                copytree_entries n src dst symlinks ignore names
                  (errors @ [(srcname, dstname, e)]) st1
              else (Inl e, st1)))"

subsection \<open>The hook\<close>

text \<open>
  A value of the configuration mapping or of the keyword arguments: a string, or
  anything else (which \<open>os.path.join\<close> rejects with \<open>TypeError\<close>).
\<close>

datatype pyval = Str string | Other nat

definition os_path_join :: "pyval \<Rightarrow> string \<Rightarrow> error + string" where
  "os_path_join a b = (case a of Str s \<Rightarrow> Inr (path_join s b) | Other v \<Rightarrow> Inl TypeError)"

text \<open>
  The state of a run: the world, the nesting of calls the interpreter still allows, and
  the library calls that change or inspect the file system, as the hook has made them so
  far, oldest first.
\<close>

datatype call =
    Makedirs string bool
  | Listdir string
  | Isdir string
  | Copytree string string bool
  | Copy2 string string

record state =
  world :: world
  rec_limit :: nat
  trace :: "call list"

definition call_makedirs :: "string \<Rightarrow> bool \<Rightarrow> state \<Rightarrow> (error + unit) \<times> state" where
  "call_makedirs d exist_ok st =
     (case os_makedirs d exist_ok (world st) of
        (r, w) \<Rightarrow> (r, st\<lparr>world := w, trace := trace st @ [Makedirs d exist_ok]\<rparr>))"

definition call_listdir :: "string \<Rightarrow> state \<Rightarrow> (error + string list) \<times> state" where
  "call_listdir p st = (os_listdir (world st) p, st\<lparr>trace := trace st @ [Listdir p]\<rparr>)"

definition call_isdir :: "string \<Rightarrow> state \<Rightarrow> bool \<times> state" where
  "call_isdir p st = (os_path_isdir (world st) p, st\<lparr>trace := trace st @ [Isdir p]\<rparr>)"

definition call_copytree ::
  "string \<Rightarrow> string \<Rightarrow> bool \<Rightarrow> ignore_fn option \<Rightarrow> state \<Rightarrow> (error + unit) \<times> state" where
  "call_copytree s d symlinks ignore st =
     (case shutil_copytree (rec_limit st) s d symlinks ignore (world st) of
        (r, w) \<Rightarrow> (r, st\<lparr>world := w, trace := trace st @ [Copytree s d symlinks]\<rparr>))"

definition call_copy2 :: "string \<Rightarrow> string \<Rightarrow> state \<Rightarrow> (error + unit) \<times> state" where
  "call_copy2 s d st =
     (case shutil_copy2 s d (world st) of
        (r, w) \<Rightarrow> (r, st\<lparr>world := w, trace := trace st @ [Copy2 s d]\<rparr>))"

text \<open>
  \<open>copy_tree(src, dst, symlinks=False, ignore=None)\<close>: the listing is taken, then the
  loop runs over it.
\<close>

fun copy_tree_items ::
  "string \<Rightarrow> string \<Rightarrow> bool \<Rightarrow> ignore_fn option \<Rightarrow> string list \<Rightarrow> state \<Rightarrow> (error + unit) \<times> state" where
  "copy_tree_items src dst symlinks ignore [] st = (Inr (), st)"
| "copy_tree_items src dst symlinks ignore (item # items) st =
     (let s = path_join src item;
          d = path_join dst item
      in (case call_isdir s st of
            (b, st1) \<Rightarrow>
              (case (if b then call_copytree s d symlinks ignore st1 else call_copy2 s d st1) of
                 (Inl e, st2) \<Rightarrow> (Inl e, st2)
               | (Inr u, st2) \<Rightarrow> copy_tree_items src dst symlinks ignore items st2)))"

definition copy_tree ::
  "string \<Rightarrow> string \<Rightarrow> bool \<Rightarrow> ignore_fn option \<Rightarrow> state \<Rightarrow> (error + unit) \<times> state" where
  "copy_tree src dst symlinks ignore st =
     (case call_listdir src st of
        (Inl e, st1) \<Rightarrow> (Inl e, st1)
      | (Inr items, st1) \<Rightarrow> copy_tree_items src dst symlinks ignore items st1)"

text \<open>
  \<open>copy_directory(dir_path, site_dir)\<close>; \<open>copy_tree\<close> is called with two arguments, so
  its \<open>symlinks\<close> and \<open>ignore\<close> take their defaults.
\<close>

definition copy_directory :: "string \<Rightarrow> pyval \<Rightarrow> state \<Rightarrow> (error + unit) \<times> state" where
  "copy_directory dir_path site_dir st =
     (case os_path_join site_dir dir_path of
        Inl e \<Rightarrow> (Inl e, st)
      | Inr d \<Rightarrow>
          (case call_makedirs d True st of
             (Inl e, st1) \<Rightarrow> (Inl e, st1)
           | (Inr u, st1) \<Rightarrow>
               (let s = (if dir_path \<noteq> ''dist'' then dir_path else ''build'')
                in copy_tree s d False None st1)))"

text \<open>\<open>copy_static_files(config, **kwargs)\<close>; a missing key raises \<open>KeyError\<close>.\<close>

definition copy_static_files ::
  "(string \<rightharpoonup> pyval) \<Rightarrow> (string \<rightharpoonup> pyval) \<Rightarrow> state \<Rightarrow> (error + unit) \<times> state" where
  "copy_static_files config kwargs st =
     (case config ''site_dir'' of
        None \<Rightarrow> (Inl KeyError, st)
      | Some site_dir \<Rightarrow>
          (case copy_directory ''dist'' site_dir st of
             (Inl e, st1) \<Rightarrow> (Inl e, st1)
           | (Inr u, st1) \<Rightarrow> copy_directory ''demos'' site_dir st1))"

subsection \<open>The scenario of the specification\<close>

text \<open>
  The repository is checked out at \<open>/repo\<close>, the working directory; \<open>build\<close> holds
  \<open>app.js\<close> and \<open>demos\<close> holds \<open>demo1/index.html\<close>. Contents and metadata are arbitrary.
  The site directory \<open>/out\<close> does not exist yet.
\<close>

definition scenario_files :: "string \<Rightarrow> nat \<Rightarrow> string \<Rightarrow> nat \<Rightarrow> filesys" where
  "scenario_files c1 m1 c2 m2 =
     [([''repo''], Dir 1),
      ([''repo'', ''build''], Dir 2),
      ([''repo'', ''build'', ''app.js''], File c1 m1),
      ([''repo'', ''demos''], Dir 3),
      ([''repo'', ''demos'', ''demo1''], Dir 4),
      ([''repo'', ''demos'', ''demo1'', ''index.html''], File c2 m2)]"

definition scenario :: "string \<Rightarrow> nat \<Rightarrow> string \<Rightarrow> nat \<Rightarrow> nat \<Rightarrow> state" where
  "scenario c1 m1 c2 m2 n =
     \<lparr>world = \<lparr>files = scenario_files c1 m1 c2 m2, cwd = [''repo'']\<rparr>,
      rec_limit = Suc n, trace = []\<rparr>"

subsection \<open>The calls of a run\<close>

text \<open>
  What the hook does is read off the library calls it makes. One round of the loop of
  \<open>copy_tree\<close> asks whether the entry is a directory and copies it; a job makes the
  destination, lists the source and goes through the entries.
\<close>

definition item_calls :: "string \<Rightarrow> string \<Rightarrow> bool \<Rightarrow> string \<Rightarrow> call list \<Rightarrow> bool" where
  "item_calls src dst symlinks item cs =
     (cs = [Isdir (path_join src item),
            Copytree (path_join src item) (path_join dst item) symlinks] \<or>
      cs = [Isdir (path_join src item),
            Copy2 (path_join src item) (path_join dst item)])"

lemma call_makedirs_trace:
  "call_makedirs d ok st = (r, st') \<Longrightarrow>
   trace st' = trace st @ [Makedirs d ok] \<and> rec_limit st' = rec_limit st"
  by (auto simp: call_makedirs_def split: prod.splits)

lemma call_copytree_trace:
  "call_copytree s d symlinks ignore st = (r, st') \<Longrightarrow>
   trace st' = trace st @ [Copytree s d symlinks] \<and> rec_limit st' = rec_limit st"
  by (auto simp: call_copytree_def split: prod.splits)

lemma call_copy2_trace:
  "call_copy2 s d st = (r, st') \<Longrightarrow>
   trace st' = trace st @ [Copy2 s d] \<and> rec_limit st' = rec_limit st"
  by (auto simp: call_copy2_def split: prod.splits)

text \<open>One round of the loop of copy_tree.\<close>

definition copy_item :: "string \<Rightarrow> string \<Rightarrow> bool \<Rightarrow> ignore_fn option \<Rightarrow> string \<Rightarrow> state \<Rightarrow> (error + unit) \<times> state" where
  "copy_item src dst symlinks ignore item st =
     (let s = path_join src item;
          d = path_join dst item
      in (case call_isdir s st of
            (b, st1) \<Rightarrow>
              (if b then call_copytree s d symlinks ignore st1 else call_copy2 s d st1)))"

lemma copy_tree_items_Cons:
  "copy_tree_items src dst symlinks ignore (item # items) st =
     (case copy_item src dst symlinks ignore item st of
        (Inl e, st2) \<Rightarrow> (Inl e, st2)
      | (Inr u, st2) \<Rightarrow> copy_tree_items src dst symlinks ignore items st2)"
  by (simp add: copy_item_def Let_def split: prod.splits)

lemma copy_item_trace:
  assumes "copy_item src dst symlinks ignore item st = (r, st')"
  shows "\<exists>cs. trace st' = trace st @ cs \<and> item_calls src dst symlinks item cs"
proof (cases "os_path_isdir (world st) (path_join src item)")
  case True
  then have "call_copytree (path_join src item) (path_join dst item) symlinks ignore
      (st\<lparr>trace := trace st @ [Isdir (path_join src item)]\<rparr>) = (r, st')"
    using assms by (simp add: copy_item_def Let_def call_isdir_def)
  from call_copytree_trace [OF this] show ?thesis
    by (simp add: item_calls_def)
next
  case False
  then have "call_copy2 (path_join src item) (path_join dst item)
      (st\<lparr>trace := trace st @ [Isdir (path_join src item)]\<rparr>) = (r, st')"
    using assms by (simp add: copy_item_def Let_def call_isdir_def)
  from call_copy2_trace [OF this] show ?thesis
    by (simp add: item_calls_def)
qed


fun items_calls :: "string \<Rightarrow> string \<Rightarrow> bool \<Rightarrow> string list \<Rightarrow> call list \<Rightarrow> bool" where
  "items_calls src dst symlinks [] tr = (tr = [])"
| "items_calls src dst symlinks (item # items) (c1 # c2 # tr) =
     (item_calls src dst symlinks item [c1, c2] \<and> items_calls src dst symlinks items tr)"
| "items_calls src dst symlinks (item # items) tr = False"

lemma items_calls_Cons_append:
  "item_calls src dst symlinks item cs \<Longrightarrow> items_calls src dst symlinks items tr \<Longrightarrow>
   items_calls src dst symlinks (item # items) (cs @ tr)"
  by (auto simp: item_calls_def)

lemma copy_tree_items_trace:
  "copy_tree_items src dst symlinks ignore items st = (r, st') \<Longrightarrow>
   \<exists>n tr. n \<le> length items \<and> trace st' = trace st @ tr \<and>
          items_calls src dst symlinks (take n items) tr \<and>
          (r = Inr () \<longrightarrow> n = length items) \<and> (r \<noteq> Inr () \<longrightarrow> tr \<noteq> [])"
proof (induction items arbitrary: st)
  case Nil
  then show ?case by simp
next
  case (Cons item items)
  obtain r2 st2 where step: "copy_item src dst symlinks ignore item st = (r2, st2)"
    by (cases "copy_item src dst symlinks ignore item st")
  from copy_item_trace [OF step] obtain cs where
    cs: "trace st2 = trace st @ cs" "item_calls src dst symlinks item cs"
    by blast
  show ?case
  proof (cases r2)
    case (Inl e)
    then have "r = Inl e" "st' = st2"
      using Cons.prems step by (simp_all add: copy_tree_items_Cons del: copy_tree_items.simps)
    moreover have "items_calls src dst symlinks (take 1 (item # items)) cs"
      using items_calls_Cons_append [OF cs(2), of "[]" "[]"] by simp
    moreover have "cs \<noteq> []" using cs(2) by (auto simp: item_calls_def)
    ultimately show ?thesis
      using cs(1) by (intro exI [of _ 1] exI [of _ cs]) simp
  next
    case (Inr u)
    then have "copy_tree_items src dst symlinks ignore items st2 = (r, st')"
      using Cons.prems step by (simp add: copy_tree_items_Cons del: copy_tree_items.simps)
    from Cons.IH [OF this] obtain n tr where
      n: "n \<le> length items" "trace st' = trace st2 @ tr"
         "items_calls src dst symlinks (take n items) tr"
         "r = Inr () \<longrightarrow> n = length items" "r \<noteq> Inr () \<longrightarrow> tr \<noteq> []"
      by blast
    have "items_calls src dst symlinks (take (Suc n) (item # items)) (cs @ tr)"
      using items_calls_Cons_append [OF cs(2) n(3)] by simp
    then show ?thesis
      using n cs(1) by (intro exI [of _ "Suc n"] exI [of _ "cs @ tr"]) simp
  qed
qed




text \<open>The calls of one job: the directory is made, the source listed, the entries copied.\<close>

definition job_calls :: "string \<Rightarrow> string \<Rightarrow> call list \<Rightarrow> bool" where
  "job_calls src dst tr =
     (tr = [Makedirs dst True] \<or>
      (\<exists>items rest. tr = Makedirs dst True # Listdir src # rest \<and>
         items_calls src dst False items rest))"

lemma copy_tree_trace:
  assumes "copy_tree src dst symlinks ignore st = (r, st')"
  shows "\<exists>tr. trace st' = trace st @ Listdir src # tr \<and>
     (case os_listdir (world st) src of
        Inl e \<Rightarrow> r = Inl e \<and> tr = [] \<and> world st' = world st
      | Inr items \<Rightarrow>
          (\<exists>n. n \<le> length items \<and> items_calls src dst symlinks (take n items) tr \<and>
               (r = Inr () \<longrightarrow> n = length items) \<and> (r \<noteq> Inr () \<longrightarrow> tr \<noteq> [])))"
proof (cases "os_listdir (world st) src")
  case (Inl e)
  then show ?thesis using assms by (auto simp: copy_tree_def call_listdir_def)
next
  case (Inr items)
  then have "copy_tree_items src dst symlinks ignore items (st\<lparr>trace := trace st @ [Listdir src]\<rparr>)
      = (r, st')"
    using assms by (simp add: copy_tree_def call_listdir_def)
  from copy_tree_items_trace [OF this] show ?thesis using Inr by auto
qed

definition source_of :: "string \<Rightarrow> string" where
  "source_of dir_path = (if dir_path \<noteq> ''dist'' then dir_path else ''build'')"

lemma copy_directory_unfold:
  "copy_directory dir_path (Str site) st =
     (case call_makedirs (path_join site dir_path) True st of
        (Inl e, st1) \<Rightarrow> (Inl e, st1)
      | (Inr u, st1) \<Rightarrow>
          copy_tree (source_of dir_path) (path_join site dir_path) False None st1)"
  by (auto simp: copy_directory_def os_path_join_def source_of_def Let_def
      split: prod.splits sum.splits)

lemma copy_directory_trace:
  assumes "copy_directory dir_path (Str site) st = (r, st')"
  shows "\<exists>tr. trace st' = trace st @ tr \<and>
           job_calls (source_of dir_path) (path_join site dir_path) tr"
proof -
  let ?d = "path_join site dir_path" and ?s = "source_of dir_path"
  obtain r1 st1 where mk: "call_makedirs ?d True st = (r1, st1)"
    by (cases "call_makedirs ?d True st")
  have tr1: "trace st1 = trace st @ [Makedirs ?d True]"
    using call_makedirs_trace [OF mk] by simp
  show ?thesis
  proof (cases r1)
    case (Inl e)
    then have "st' = st1" using assms mk by (simp add: copy_directory_unfold)
    then show ?thesis using tr1 by (simp add: job_calls_def)
  next
    case (Inr u)
    then have "copy_tree ?s ?d False None st1 = (r, st')"
      using assms mk by (simp add: copy_directory_unfold)
    from copy_tree_trace [OF this] obtain tr where
      tr: "trace st' = trace st1 @ Listdir ?s # tr"
      and c: "case os_listdir (world st1) ?s of
        Inl e \<Rightarrow> r = Inl e \<and> tr = [] \<and> world st' = world st1
      | Inr items \<Rightarrow>
          (\<exists>n. n \<le> length items \<and> items_calls ?s ?d False (take n items) tr \<and>
               (r = Inr () \<longrightarrow> n = length items) \<and> (r \<noteq> Inr () \<longrightarrow> tr \<noteq> []))"
      by blast
    have "\<exists>items. items_calls ?s ?d False items tr"
    proof (cases "os_listdir (world st1) ?s")
      case (Inl e)
      then have "tr = []" using c by simp
      then have "items_calls ?s ?d False [] tr" by simp
      then show ?thesis ..
    next
      case (Inr items)
      then show ?thesis using c by auto
    qed
    then show ?thesis using tr tr1 by (auto simp: job_calls_def)
  qed
qed




lemma copy_static_files_unfold:
  "cfg ''site_dir'' = Some v \<Longrightarrow>
   copy_static_files cfg kw st =
     (case copy_directory ''dist'' v st of
        (Inl e, st1) \<Rightarrow> (Inl e, st1)
      | (Inr u, st1) \<Rightarrow> copy_directory ''demos'' v st1)"
  by (simp add: copy_static_files_def)

lemma source_of_simps: "source_of ''dist'' = ''build''" "source_of ''demos'' = ''demos''"
  by (simp_all add: source_of_def)



definition no_build_state :: state where
  "no_build_state =
     \<lparr>world = \<lparr>files = [([''repo''], Dir 1), ([''repo'', ''demos''], Dir 3),
                        ([''repo'', ''demos'', ''index.html''], File ''<html>'' 9)],
               cwd = [''repo'']\<rparr>,
      rec_limit = 3, trace = []\<rparr>"


definition rerun_state :: state where
  "rerun_state =
     \<lparr>world = \<lparr>files = [([''repo''], Dir 1), ([''repo'', ''demos''], Dir 3),
                        ([''repo'', ''demos'', ''a.txt''], File ''a'' 5),
                        ([''repo'', ''demos'', ''demo1''], Dir 4),
                        ([''repo'', ''demos'', ''demo1'', ''index.html''], File ''<html>'' 9),
                        ([''repo'', ''demos'', ''z.txt''], File ''z'' 6),
                        ([''out''], Dir 0), ([''out'', ''demos''], Dir 0),
                        ([''out'', ''demos'', ''demo1''], Dir 4)],
               cwd = [''repo'']\<rparr>,
      rec_limit = 3, trace = []\<rparr>"

text \<open>
  A site that already holds \<open>demos/a.txt\<close> with other content; a checkout whose
  \<open>build\<close> holds a link to a file and, in a subdirectory, another link to a file.
\<close>

definition overwrite_state :: state where
  "overwrite_state =
     \<lparr>world = \<lparr>files = [([''repo''], Dir 1), ([''repo'', ''demos''], Dir 3),
                        ([''repo'', ''demos'', ''a.txt''], File ''new'' 5),
                        ([''repo'', ''demos'', ''demo1''], Dir 4),
                        ([''repo'', ''demos'', ''demo1'', ''index.html''], File ''<html>'' 9),
                        ([''out''], Dir 0), ([''out'', ''demos''], Dir 0),
                        ([''out'', ''demos'', ''a.txt''], File ''old'' 1)],
               cwd = [''repo'']\<rparr>,
      rec_limit = 3, trace = []\<rparr>"


subsection \<open>Facts about path resolution\<close>

text \<open>
  The shape of an object: regular file, directory, or link with its target. The library
  functions modelled here never remove an object and never change its shape, so a path
  that resolved to an object keeps resolving to the same place.
\<close>

lemma map_of_fs_put: "map_of (fs_put p n fs) = (map_of fs)(p \<mapsto> n)"
  by (induction fs) (auto simp: fun_eq_iff)

lemma inode_at_fs_put:
  "inode_at (fs_put p n fs) q = (if q = p \<and> p \<noteq> [] then Some n else inode_at fs q)"
  by (simp add: inode_at_def map_of_fs_put)

lemma inode_at_root [simp]: "inode_at fs [] = Some (Dir 0)"
  by (simp add: inode_at_def)

lemma walk_inode:
  "walk fs follow fuel cur cs = Inr (q, x) \<Longrightarrow> inode_at fs q = x"
  by (induction fs follow fuel cur cs rule: walk.induct)
     (auto split: option.splits inode.splits if_splits nat.splits)

fun is_dir :: "inode option \<Rightarrow> bool" where
  "is_dir (Some (Dir m)) = True"
| "is_dir x = False"

fun is_link :: "inode option \<Rightarrow> bool" where
  "is_link (Some (Link t)) = True"
| "is_link x = False"

definition plain :: "string \<Rightarrow> bool" where
  "plain c = (c \<noteq> [] \<and> c \<noteq> ''.'' \<and> c \<noteq> ''..'')"

lemma is_dir_iff: "is_dir x = (\<exists>m. x = Some (Dir m))"
  by (cases x rule: is_dir.cases) auto

lemma is_link_iff: "is_link x = (\<exists>t. x = Some (Link t))"
  by (cases x rule: is_link.cases) auto

lemma walk_notdir:
  "\<not> is_dir (inode_at fs cur) \<Longrightarrow> \<exists>e. walk fs follow fuel cur (c # cs) = Inl e"
  by (auto simp: is_dir_iff split: option.splits inode.splits)

lemma walk_dot:
  "is_dir (inode_at fs cur) \<Longrightarrow> c = [] \<or> c = ''.'' \<Longrightarrow>
   walk fs follow fuel cur (c # cs) = walk fs follow fuel cur cs"
  by (auto simp: is_dir_iff)

lemma walk_up:
  "is_dir (inode_at fs cur) \<Longrightarrow> c = ''..'' \<Longrightarrow>
   walk fs follow fuel cur (c # cs) = walk fs follow fuel (butlast cur) cs"
  by (auto simp: is_dir_iff)

lemma walk_missing:
  "is_dir (inode_at fs cur) \<Longrightarrow> plain c \<Longrightarrow> inode_at fs (cur @ [c]) = None \<Longrightarrow>
   walk fs follow fuel cur (c # cs) =
     (if cs = [] then Inr (cur @ [c], None) else Inl FileNotFoundError)"
  by (auto simp: is_dir_iff plain_def)

lemma walk_link:
  "is_dir (inode_at fs cur) \<Longrightarrow> plain c \<Longrightarrow> inode_at fs (cur @ [c]) = Some (Link t) \<Longrightarrow>
   walk fs follow fuel cur (c # cs) =
     (if cs = [] \<and> \<not> follow then Inr (cur @ [c], Some (Link t))
      else (case fuel of
              0 \<Rightarrow> Inl TooManyLinks
            | Suc n \<Rightarrow> walk fs follow n (if startswith_sep t then [] else cur)
                        (components t @ cs)))"
  by (auto simp: is_dir_iff plain_def)

lemma walk_other:
  "is_dir (inode_at fs cur) \<Longrightarrow> plain c \<Longrightarrow> inode_at fs (cur @ [c]) = Some nd \<Longrightarrow>
   \<not> is_link (Some nd) \<Longrightarrow>
   walk fs follow fuel cur (c # cs) = walk fs follow fuel (cur @ [c]) cs"
  by (cases nd) (auto simp: is_dir_iff plain_def)

lemma walk_induct [case_names Nil NotDir Dot Up Missing LinkFinal LinkFuel LinkFollow Other]:
  assumes "\<And>fs follow fuel cur. P fs follow fuel cur []"
    and "\<And>fs follow fuel cur c cs. \<not> is_dir (inode_at fs cur) \<Longrightarrow> P fs follow fuel cur (c # cs)"
    and "\<And>fs follow fuel cur c cs.
           is_dir (inode_at fs cur) \<Longrightarrow> c = [] \<or> c = ''.'' \<Longrightarrow>
           P fs follow fuel cur cs \<Longrightarrow> P fs follow fuel cur (c # cs)"
    and "\<And>fs follow fuel cur c cs.
           is_dir (inode_at fs cur) \<Longrightarrow> c = ''..'' \<Longrightarrow>
           P fs follow fuel (butlast cur) cs \<Longrightarrow> P fs follow fuel cur (c # cs)"
    and "\<And>fs follow fuel cur c cs.
           is_dir (inode_at fs cur) \<Longrightarrow> plain c \<Longrightarrow> inode_at fs (cur @ [c]) = None \<Longrightarrow>
           P fs follow fuel cur (c # cs)"
    and "\<And>fs follow fuel cur c cs t.
           is_dir (inode_at fs cur) \<Longrightarrow> plain c \<Longrightarrow>
           inode_at fs (cur @ [c]) = Some (Link t) \<Longrightarrow> cs = [] \<Longrightarrow> \<not> follow \<Longrightarrow>
           P fs follow fuel cur (c # cs)"
    and "\<And>fs follow cur c cs t.
           is_dir (inode_at fs cur) \<Longrightarrow> plain c \<Longrightarrow>
           inode_at fs (cur @ [c]) = Some (Link t) \<Longrightarrow> cs \<noteq> [] \<or> follow \<Longrightarrow>
           P fs follow 0 cur (c # cs)"
    and "\<And>fs follow fuel cur c cs t.
           is_dir (inode_at fs cur) \<Longrightarrow> plain c \<Longrightarrow>
           inode_at fs (cur @ [c]) = Some (Link t) \<Longrightarrow> cs \<noteq> [] \<or> follow \<Longrightarrow>
           P fs follow fuel (if startswith_sep t then [] else cur) (components t @ cs) \<Longrightarrow>
           P fs follow (Suc fuel) cur (c # cs)"
    and "\<And>fs follow fuel cur c cs nd.
           is_dir (inode_at fs cur) \<Longrightarrow> plain c \<Longrightarrow>
           inode_at fs (cur @ [c]) = Some nd \<Longrightarrow> \<not> is_link (Some nd) \<Longrightarrow>
           P fs follow fuel (cur @ [c]) cs \<Longrightarrow> P fs follow fuel cur (c # cs)"
  shows "P fs follow fuel cur cs"
proof (induction fs follow fuel cur cs rule: walk.induct)
  case (1 fs follow fuel cur)
  show ?case by (rule assms(1))
next
  case (2 fs follow fuel cur c cs)
  show ?case
  proof (cases "is_dir (inode_at fs cur)")
    case False
    then show ?thesis by (rule assms(2))
  next
    case True
    then obtain m where d: "inode_at fs cur = Some (Dir m)" by (auto simp: is_dir_iff)
    show ?thesis
    proof (cases "c = [] \<or> c = ''.''")
      case dot: True
      show ?thesis using True dot "2.IH"(1) [OF d refl dot] by (rule assms(3))
    next
      case nodot: False
      show ?thesis
      proof (cases "c = ''..''")
        case up: True
        show ?thesis using True up "2.IH"(2) [OF d refl nodot up] by (rule assms(4))
      next
        case noup: False
        have pl: "plain c" using nodot noup by (simp add: plain_def)
        show ?thesis
        proof (cases "inode_at fs (cur @ [c])")
          case None
          show ?thesis using True pl None by (rule assms(5))
        next
          case (Some nd)
          show ?thesis
          proof (cases nd)
            case (Link t)
            show ?thesis
            proof (cases "cs = [] \<and> \<not> follow")
              case fin: True
              show ?thesis
                using True pl Some [unfolded Link] fin [THEN conjunct1] fin [THEN conjunct2]
                by (rule assms(6))
            next
              case nofin: False
              then have nf: "cs \<noteq> [] \<or> follow" by simp
              show ?thesis
              proof (cases fuel)
                case 0
                show ?thesis unfolding 0
                  using True pl Some [unfolded Link] nf by (rule assms(7))
              next
                case (Suc n)
                show ?thesis unfolding Suc
                  using True pl Some [unfolded Link] nf
                    "2.IH"(5) [OF d refl nodot noup Some Link nofin Suc]
                  by (rule assms(8))
              qed
            qed
          next
            case (File c' m')
            show ?thesis
              using True pl Some _ "2.IH"(3) [OF d refl nodot noup Some File]
              by (rule assms(9)) (simp add: File)
          next
            case (Dir m')
            show ?thesis
              using True pl Some _ "2.IH"(4) [OF d refl nodot noup Some Dir]
              by (rule assms(9)) (simp add: Dir)
          qed
        qed
      qed
    qed
  qed
qed


declare walk.simps(2) [simp del]

lemmas walk_step = walk_dot walk_up walk_missing walk_link walk_other

fun same_kind :: "inode \<Rightarrow> inode \<Rightarrow> bool" where
  "same_kind (File c m) (File c' m') = True"
| "same_kind (Dir m) (Dir m') = True"
| "same_kind (Link t) (Link t') = (t = t')"
| "same_kind n n' = False"

definition extends :: "filesys \<Rightarrow> filesys \<Rightarrow> bool" where
  "extends fs fs' =
     (\<forall>p n. inode_at fs p = Some n \<longrightarrow> (\<exists>n'. inode_at fs' p = Some n' \<and> same_kind n n'))"

lemma same_kind_refl: "same_kind n n"
  by (cases n) auto

lemma same_kind_trans: "same_kind a b \<Longrightarrow> same_kind b c \<Longrightarrow> same_kind a c"
  by (cases a; cases b; cases c) auto

lemma same_kind_Dir: "same_kind (Dir m) n = (\<exists>m'. n = Dir m')"
  by (cases n) auto

lemma same_kind_Link: "same_kind (Link t) n = (n = Link t)"
  by (cases n) auto

lemma same_kind_File: "same_kind (File c m) n = (\<exists>c' m'. n = File c' m')"
  by (cases n) auto

lemma extends_refl: "extends fs fs"
  by (simp add: extends_def same_kind_refl)

lemma extends_trans:
  assumes "extends a b" and "extends b c"
  shows "extends a c"
  unfolding extends_def
proof (intro allI impI)
  fix p n
  assume "inode_at a p = Some n"
  then obtain n' where 1: "inode_at b p = Some n'" "same_kind n n'"
    using assms(1) by (auto simp: extends_def)
  then obtain n'' where 2: "inode_at c p = Some n''" "same_kind n' n''"
    using assms(2) by (auto simp: extends_def)
  show "\<exists>n'. inode_at c p = Some n' \<and> same_kind n n'"
    using 1 2 same_kind_trans by blast
qed

lemma extends_is_dir:
  assumes "extends fs fs'" and "is_dir (inode_at fs p)"
  shows "is_dir (inode_at fs' p)"
proof -
  obtain m where "inode_at fs p = Some (Dir m)" using assms(2) by (auto simp: is_dir_iff)
  then obtain n' where "inode_at fs' p = Some n'" "same_kind (Dir m) n'"
    using assms(1) by (auto simp: extends_def)
  then show ?thesis by (auto simp: same_kind_Dir)
qed

lemma extends_link:
  assumes "extends fs fs'" and "inode_at fs p = Some (Link t)"
  shows "inode_at fs' p = Some (Link t)"
proof -
  obtain n' where "inode_at fs' p = Some n'" "same_kind (Link t) n'"
    using assms by (auto simp: extends_def)
  then show ?thesis by (simp add: same_kind_Link)
qed

lemma extends_other:
  assumes "extends fs fs'" and "inode_at fs p = Some nd" and "\<not> is_link (Some nd)"
  shows "\<exists>nd'. inode_at fs' p = Some nd' \<and> \<not> is_link (Some nd')"
proof -
  obtain n' where n': "inode_at fs' p = Some n'" "same_kind nd n'"
    using assms by (auto simp: extends_def)
  have "\<not> is_link (Some n')"
    using assms(3) n'(2) by (cases nd; cases n') auto
  then show ?thesis using n'(1) by blast
qed

lemma walk_extends:
  assumes "extends fs fs'" and "walk fs follow fuel cur cs = Inr (q, x)"
    and "x = None \<Longrightarrow> \<not> is_link (inode_at fs' q)"
  shows "walk fs' follow fuel cur cs = Inr (q, inode_at fs' q)"
  using assms
proof (induction fs follow fuel cur cs arbitrary: q x rule: walk_induct)
  case (Nil fs follow fuel cur)
  then show ?case by simp
next
  case (NotDir fs follow fuel cur c cs)
  from walk_notdir [OF NotDir(1), of follow fuel c cs] NotDir.prems(2)
  show ?case by auto
next
  case (Dot fs follow fuel cur c cs)
  then show ?case by (simp add: walk_dot extends_is_dir)
next
  case (Up fs follow fuel cur c cs)
  then show ?case by (simp add: walk_up extends_is_dir)
next
  case (Missing fs follow fuel cur c cs)
  from Missing.prems(2) have r: "cs = []" "q = cur @ [c]" "x = None"
    by (simp_all add: walk_missing [OF Missing(1,2,3)] split: if_splits)
  have d: "is_dir (inode_at fs' cur)" using Missing by (simp add: extends_is_dir)
  show ?case
  proof (cases "inode_at fs' (cur @ [c])")
    case None
    then show ?thesis using r d Missing(2) by (simp add: walk_missing)
  next
    case (Some nd')
    then have "\<not> is_link (Some nd')" using Missing.prems(3) r by simp
    then show ?thesis using r d Missing(2) Some by (simp add: walk_other)
  qed
next
  case (LinkFinal fs follow fuel cur c cs t)
  have l: "inode_at fs' (cur @ [c]) = Some (Link t)"
    using LinkFinal by (simp add: extends_link)
  have d: "is_dir (inode_at fs' cur)" using LinkFinal by (simp add: extends_is_dir)
  have "q = cur @ [c]"
    using LinkFinal.prems(2) LinkFinal(1,2,3,4,5) by (simp add: walk_link)
  then show ?case using l d LinkFinal(2,4,5) by (simp add: walk_link)
next
  case (LinkFuel fs follow cur c cs t)
  have "walk fs follow 0 cur (c # cs) = Inl TooManyLinks"
    using LinkFuel(1,2,3,4) by (auto simp: walk_link)
  then show ?case using LinkFuel.prems(2) by simp
next
  case (LinkFollow fs follow fuel cur c cs t)
  have l: "inode_at fs' (cur @ [c]) = Some (Link t)"
    using LinkFollow by (simp add: extends_link)
  have d: "is_dir (inode_at fs' cur)" using LinkFollow by (simp add: extends_is_dir)
  have "walk fs follow fuel (if startswith_sep t then [] else cur) (components t @ cs) = Inr (q, x)"
    using LinkFollow.prems(2) LinkFollow(1,2,3,4) by (auto simp: walk_link)
  from LinkFollow.IH [OF LinkFollow.prems(1) this LinkFollow.prems(3)]
  show ?case using l d LinkFollow(2,4) by (auto simp: walk_link)
next
  case (Other fs follow fuel cur c cs nd)
  obtain nd' where nd': "inode_at fs' (cur @ [c]) = Some nd'" "\<not> is_link (Some nd')"
    using extends_other [OF Other.prems(1) Other(3,4)] by blast
  have d: "is_dir (inode_at fs' cur)" using Other by (simp add: extends_is_dir)
  have "walk fs follow fuel (cur @ [c]) cs = Inr (q, x)"
    using Other.prems(2) Other(1,2,3,4) by (simp add: walk_other)
  from Other.IH [OF Other.prems(1) this Other.prems(3)]
  show ?case using nd' d Other(2) by (simp add: walk_other)
qed


lemma walk_follow:
  assumes "\<not> follow" and "walk fs follow fuel cur cs = Inr (q, x)" and "\<not> is_link x"
  shows "walk fs True fuel cur cs = Inr (q, x)"
  using assms
proof (induction fs follow fuel cur cs arbitrary: q x rule: walk_induct)
  case (Nil fs follow fuel cur)
  then show ?case by auto
next
  case (NotDir fs follow fuel cur c cs)
  from walk_notdir [OF NotDir(1), of follow fuel c cs] NotDir.prems(2)
  show ?case by auto
next
  case (Dot fs follow fuel cur c cs)
  then show ?case by (simp add: walk_dot)
next
  case (Up fs follow fuel cur c cs)
  then show ?case by (simp add: walk_up)
next
  case (Missing fs follow fuel cur c cs)
  then show ?case by (auto simp: walk_missing split: if_splits)
next
  case (LinkFinal fs follow fuel cur c cs t)
  have "walk fs follow fuel cur (c # cs) = Inr (cur @ [c], Some (Link t))"
    using LinkFinal(1,2,3,4,5) by (simp add: walk_link)
  then have "x = Some (Link t)" using LinkFinal.prems(2) by simp
  then show ?case using LinkFinal.prems(3) by simp
next
  case (LinkFuel fs follow cur c cs t)
  then show ?case by (auto simp: walk_link)
next
  case (LinkFollow fs follow fuel cur c cs t)
  then show ?case by (auto simp: walk_link)
next
  case (Other fs follow fuel cur c cs nd)
  then show ?case by (simp add: walk_other)
qed

lemma walk_nofollow:
  assumes "follow" and "walk fs follow fuel cur cs = Inr (q, Some n)"
  shows "\<exists>q' n'. walk fs False fuel cur cs = Inr (q', Some n')"
  using assms
proof (induction fs follow fuel cur cs arbitrary: q n rule: walk_induct)
  case (Nil fs follow fuel cur)
  then show ?case by auto
next
  case (NotDir fs follow fuel cur c cs)
  from walk_notdir [OF NotDir(1), of follow fuel c cs] NotDir.prems(2)
  show ?case by auto
next
  case (Dot fs follow fuel cur c cs)
  then show ?case by (simp add: walk_dot)
next
  case (Up fs follow fuel cur c cs)
  then show ?case by (simp add: walk_up)
next
  case (Missing fs follow fuel cur c cs)
  then show ?case by (simp add: walk_missing split: if_splits)
next
  case (LinkFinal fs follow fuel cur c cs t)
  then show ?case by simp
next
  case (LinkFuel fs follow cur c cs t)
  then show ?case by (auto simp: walk_link)
next
  case (LinkFollow fs follow fuel cur c cs t)
  show ?case
  proof (cases "cs = []")
    case True
    then show ?thesis using LinkFollow(1,2,3) by (simp add: walk_link)
  next
    case False
    then show ?thesis using LinkFollow by (auto simp: walk_link)
  qed
next
  case (Other fs follow fuel cur c cs nd)
  then show ?case by (simp add: walk_other)
qed

lemma walk_prefix:
  assumes "follow" and "ds \<noteq> []" and "walk fs follow' fuel cur (cs @ ds) = Inr r"
  shows "\<exists>q. walk fs follow fuel cur cs = Inr (q, inode_at fs q) \<and> is_dir (inode_at fs q)"
  using assms
proof (induction fs follow fuel cur cs rule: walk_induct)
  case (Nil fs follow fuel cur)
  obtain d ds' where ds: "ds = d # ds'" using Nil(2) by (cases ds) auto
  have "is_dir (inode_at fs cur)"
    using walk_notdir [of fs cur follow' fuel d ds'] Nil(3) ds by auto
  then show ?case by simp
next
  case (NotDir fs follow fuel cur c cs)
  from walk_notdir [OF NotDir(1), of follow' fuel c "cs @ ds"] NotDir.prems(3)
  show ?case by auto
next
  case (Dot fs follow fuel cur c cs)
  then show ?case by (simp add: walk_dot)
next
  case (Up fs follow fuel cur c cs)
  then show ?case by (simp add: walk_up)
next
  case (Missing fs follow fuel cur c cs)
  then show ?case by (simp add: walk_missing)
next
  case (LinkFinal fs follow fuel cur c cs t)
  then show ?case by simp
next
  case (LinkFuel fs follow cur c cs t)
  then show ?case by (auto simp: walk_link)
next
  case (LinkFollow fs follow fuel cur c cs t)
  then show ?case by (auto simp: walk_link)
next
  case (Other fs follow fuel cur c cs nd)
  then show ?case by (simp add: walk_other)
qed

subsection \<open>Nothing is removed\<close>

lemma extends_fs_put_new: "inode_at fs q = None \<Longrightarrow> extends fs (fs_put q n fs)"
  by (auto simp: extends_def inode_at_fs_put same_kind_refl)

lemma extends_fs_put_same:
  "inode_at fs q = Some n0 \<Longrightarrow> same_kind n0 n \<Longrightarrow> extends fs (fs_put q n fs)"
  by (auto simp: extends_def inode_at_fs_put same_kind_refl)

text \<open>One world continues another: same working directory, objects kept.\<close>

definition continues :: "world \<Rightarrow> world \<Rightarrow> bool" where
  "continues w w' = (cwd w' = cwd w \<and> extends (files w) (files w'))"

lemma continues_refl: "continues w w"
  by (simp add: continues_def extends_refl)

lemma continues_trans: "continues a b \<Longrightarrow> continues b c \<Longrightarrow> continues a c"
  by (auto simp: continues_def intro: extends_trans)

lemma resolve_inode: "resolve w follow p = Inr (q, x) \<Longrightarrow> inode_at (files w) q = x"
  by (auto simp: resolve_def split: if_splits dest: walk_inode)

lemma resolve_continues:
  assumes "continues w w'" and "resolve w follow p = Inr (q, x)"
    and "x = None \<Longrightarrow> \<not> is_link (inode_at (files w') q)"
  shows "resolve w' follow p = Inr (q, inode_at (files w') q)"
proof -
  have p: "p \<noteq> []" using assms(2) by (auto simp: resolve_def)
  have c: "cwd w' = cwd w" and e: "extends (files w) (files w')"
    using assms(1) by (simp_all add: continues_def)
  have "walk (files w) follow max_links (if startswith_sep p then [] else cwd w) (components p)
      = Inr (q, x)"
    using assms(2) p by (simp add: resolve_def)
  from walk_extends [OF e this assms(3)] show ?thesis
    using p c by (cases "startswith_sep p") (simp_all add: resolve_def)
qed

lemma isdir_iff: "os_path_isdir w p = (\<exists>q m. resolve w True p = Inr (q, Some (Dir m)))"
  by (auto simp: os_path_isdir_def split: sum.splits option.splits inode.splits)

lemma exists_iff: "os_path_exists w p = (\<exists>q n. resolve w True p = Inr (q, Some n))"
  by (auto simp: os_path_exists_def split: sum.splits option.splits)

lemma isdir_continues:
  assumes "continues w w'" and "os_path_isdir w p"
  shows "os_path_isdir w' p"
proof -
  obtain q m where r: "resolve w True p = Inr (q, Some (Dir m))"
    using assms(2) by (auto simp: isdir_iff)
  then have "is_dir (inode_at (files w) q)" by (simp add: resolve_inode)
  then have "is_dir (inode_at (files w') q)"
    using assms(1) by (auto simp: continues_def intro: extends_is_dir)
  moreover have "resolve w' True p = Inr (q, inode_at (files w') q)"
    using resolve_continues [OF assms(1) r] by simp
  ultimately show ?thesis by (auto simp: isdir_iff is_dir_iff)
qed

lemma create_cases:
  assumes "create p n w = (r, w')"
  shows "(\<exists>e. r = Inl e \<and> w' = w) \<or>
         (\<exists>q. r = Inr () \<and> resolve w False p = Inr (q, None) \<and>
              w' = w\<lparr>files := fs_put q n (files w)\<rparr>)"
  using assms
  by (auto simp: create_def split: sum.splits option.splits)

lemma create_continues: "create p n w = (r, w') \<Longrightarrow> continues w w'"
  by (auto dest!: create_cases simp: continues_def extends_refl
      intro!: extends_fs_put_new dest: resolve_inode)

lemma create_resolves:
  assumes "create p n w = (Inr (), w')" and "\<not> is_link (Some n)"
  shows "\<exists>q. resolve w' True p = Inr (q, Some n)"
proof -
  obtain q where q: "resolve w False p = Inr (q, None)"
    and w': "w' = w\<lparr>files := fs_put q n (files w)\<rparr>"
    using create_cases [OF assms(1)] by auto
  have none: "inode_at (files w) q = None" using q by (rule resolve_inode)
  then have qne: "q \<noteq> []" by auto
  have at: "inode_at (files w') q = Some n" using w' qne by (simp add: inode_at_fs_put)
  have c: "continues w w'" using assms(1) by (rule create_continues)
  have "resolve w' False p = Inr (q, Some n)"
    using resolve_continues [OF c q] at assms(2) by simp
  then have "resolve w' True p = Inr (q, Some n)"
    using assms(2) by (auto simp: resolve_def split: if_splits intro: walk_follow)
  then show ?thesis ..
qed


lemma rstrip_sep_id: "p \<noteq> [] \<Longrightarrow> last p \<noteq> sep \<Longrightarrow> rstrip_sep p = p"
  by (cases p rule: rev_cases) (simp_all add: rstrip_sep_def)

lemma os_mkdir_continues: "os_mkdir p w = (r, w') \<Longrightarrow> continues w w'"
  by (auto simp: os_mkdir_def dest: create_continues)

lemma os_mkdir_isdir:
  assumes "os_mkdir p w = (Inr (), w')" and "p \<noteq> []" and "last p \<noteq> sep"
  shows "os_path_isdir w' p"
proof -
  have "create p (Dir default_meta) w = (Inr (), w')"
    using assms by (simp add: os_mkdir_def rstrip_sep_id)
  from create_resolves [OF this] show ?thesis by (auto simp: isdir_iff)
qed

lemma os_mkdir_fail: "os_mkdir p w = (Inl e, w') \<Longrightarrow> w' = w"
  by (auto simp: os_mkdir_def dest!: create_cases)

lemma makedirs_leaf_continues: "makedirs_leaf name ok w = (r, w') \<Longrightarrow> continues w w'"
  by (auto simp: makedirs_leaf_def split: prod.splits sum.splits if_splits
      dest: os_mkdir_continues)

lemma makedirs_leaf_isdir:
  assumes "makedirs_leaf name ok w = (Inr (), w')" and "name \<noteq> []" and "last name \<noteq> sep"
  shows "os_path_isdir w' name"
proof (cases "os_mkdir name w")
  case (Pair r1 w1)
  show ?thesis
  proof (cases r1)
    case (Inr u)
    then have "w' = w1" using assms(1) Pair by (simp add: makedirs_leaf_def)
    then show ?thesis using os_mkdir_isdir [OF _ assms(2,3)] Pair Inr by simp
  next
    case (Inl e)
    then show ?thesis using assms(1) Pair by (auto simp: makedirs_leaf_def split: if_splits)
  qed
qed

lemma os_makedirs_cases:
  assumes "os_makedirs name ok w = (r, w')" and "makedirs_split name = (head, tail)"
  shows "makedirs_leaf name ok w = (r, w') \<or>
         (head \<noteq> [] \<and> tail \<noteq> [] \<and> \<not> os_path_exists w head \<and>
          (\<exists>r1 w1. os_makedirs head ok w = (r1, w1) \<and>
             (makedirs_leaf name ok w1 = (r, w') \<or> w' = w1)))"
  using assms
  by (subst (asm) os_makedirs.simps)
     (auto split: prod.splits sum.splits if_splits)

lemma os_makedirs_continues: "os_makedirs name ok w = (r, w') \<Longrightarrow> continues w w'"
proof (induction name ok w arbitrary: r w' rule: os_makedirs.induct)
  case (1 name ok st)
  obtain head tail where sp: "makedirs_split name = (head, tail)"
    by (cases "makedirs_split name")
  from os_makedirs_cases [OF "1.prems" sp] show ?case
  proof
    assume "makedirs_leaf name ok st = (r, w')"
    then show ?thesis by (rule makedirs_leaf_continues)
  next
    assume a: "head \<noteq> [] \<and> tail \<noteq> [] \<and> \<not> os_path_exists st head \<and>
          (\<exists>r1 w1. os_makedirs head ok st = (r1, w1) \<and>
             (makedirs_leaf name ok w1 = (r, w') \<or> w' = w1))"
    then obtain r1 w1 where rec: "os_makedirs head ok st = (r1, w1)"
      and fin: "makedirs_leaf name ok w1 = (r, w') \<or> w' = w1" by blast
    have "continues st w1" using "1.IH" [OF sp [symmetric] _ rec] a by blast
    moreover have "continues w1 w'"
      using fin by (auto intro: makedirs_leaf_continues continues_refl)
    ultimately show ?thesis by (rule continues_trans)
  qed
qed

lemma os_makedirs_isdir:
  assumes "os_makedirs name ok w = (Inr (), w')" and "makedirs_split name = (head, tail)"
    and "tail \<noteq> ''.''" and "name \<noteq> []" and "last name \<noteq> sep"
  shows "os_path_isdir w' name"
proof -
  have "\<exists>w1. makedirs_leaf name ok w1 = (Inr (), w')"
    using assms(1,2,3)
    by (subst (asm) os_makedirs.simps) (auto split: prod.splits sum.splits if_splits)
  then show ?thesis using makedirs_leaf_isdir [OF _ assms(4,5)] by blast
qed


lemma same_kind_set_meta: "same_kind n (set_meta m n)"
  by (cases n) auto

lemma put_continues_same:
  "resolve w follow p = Inr (q, Some n0) \<Longrightarrow> same_kind n0 n \<Longrightarrow>
   continues w (w\<lparr>files := fs_put q n (files w)\<rparr>)"
  by (auto simp: continues_def dest!: resolve_inode intro: extends_fs_put_same)

lemma put_continues_new:
  "resolve w follow p = Inr (q, None) \<Longrightarrow> continues w (w\<lparr>files := fs_put q n (files w)\<rparr>)"
  by (auto simp: continues_def dest!: resolve_inode intro: extends_fs_put_new)

lemma shutil_copystat_continues:
  assumes "shutil_copystat src dst fl w = (r, w')"
  shows "continues w w'"
proof (cases "\<not> fl \<and> os_path_islink w src \<and> os_path_islink w dst")
  case True
  then show ?thesis using assms by (simp add: shutil_copystat_def continues_refl)
next
  case False
  show ?thesis
  proof (cases "resolve w True src")
    case (Inl e)
    then show ?thesis using assms False by (auto simp: shutil_copystat_def continues_refl)
  next
    case (Inr a)
    obtain p x where a: "a = (p, x)" by (cases a)
    show ?thesis
    proof (cases x)
      case None
      then show ?thesis using assms False Inr a by (auto simp: shutil_copystat_def continues_refl)
    next
      case (Some n)
      show ?thesis
      proof (cases "resolve w True dst")
        case (Inl e)
        then show ?thesis
          using assms False Inr a Some by (auto simp: shutil_copystat_def continues_refl)
      next
        case r2: (Inr b)
        obtain q y where b: "b = (q, y)" by (cases b)
        show ?thesis
        proof (cases y)
          case None
          then show ?thesis
            using assms False Inr a Some r2 b by (auto simp: shutil_copystat_def continues_refl)
        next
          case s2: (Some n')
          have "w' = w\<lparr>files := fs_put q (set_meta (meta_of n) n') (files w)\<rparr>"
            using assms False Inr a Some r2 b s2 by (auto simp: shutil_copystat_def)
          then show ?thesis
            using put_continues_same [OF r2 [unfolded b s2] same_kind_set_meta] by simp
        qed
      qed
    qed
  qed
qed

lemma write_file_continues:
  assumes "write_file p c w = (r, w')"
  shows "continues w w'"
proof (cases "resolve w True p")
  case (Inl e)
  then show ?thesis using assms by (simp add: write_file_def continues_refl)
next
  case (Inr a)
  obtain q x where a: "a = (q, x)" by (cases a)
  show ?thesis
  proof (cases x)
    case None
    then have "w' = w\<lparr>files := fs_put q (File c default_meta) (files w)\<rparr>"
      using assms Inr a by (simp add: write_file_def)
    then show ?thesis using put_continues_new [OF Inr [unfolded a None]] by simp
  next
    case (Some n)
    show ?thesis
    proof (cases n)
      case (File c' m)
      then have "w' = w\<lparr>files := fs_put q (File c m) (files w)\<rparr>"
        using assms Inr a Some by (simp add: write_file_def)
      then show ?thesis
        using put_continues_same [OF Inr [unfolded a Some File], of "File c m"] by simp
    next
      case (Dir m)
      then show ?thesis using assms Inr a Some by (simp add: write_file_def continues_refl)
    next
      case (Link t)
      then show ?thesis using assms Inr a Some by (simp add: write_file_def continues_refl)
    qed
  qed
qed

lemma shutil_copyfile_continues: "shutil_copyfile src dst w = (r, w') \<Longrightarrow> continues w w'"
  by (auto simp: shutil_copyfile_def continues_refl split: if_splits sum.splits
      dest: write_file_continues)

lemma shutil_copy2_continues:
  assumes "shutil_copy2 src dst w = (r, w')"
  shows "continues w w'"
proof -
  let ?d = "if os_path_isdir w dst then path_join dst (basename src) else dst"
  obtain r1 w1 where cf: "shutil_copyfile src ?d w = (r1, w1)"
    by (cases "shutil_copyfile src ?d w")
  have c1: "continues w w1" using cf by (rule shutil_copyfile_continues)
  show ?thesis
  proof (cases r1)
    case (Inl e)
    then have "w' = w1" using assms cf by (simp add: shutil_copy2_def Let_def)
    then show ?thesis using c1 by simp
  next
    case (Inr u)
    then have "shutil_copystat src ?d True w1 = (r, w')"
      using assms cf by (simp add: shutil_copy2_def Let_def)
    then have "continues w1 w'" by (rule shutil_copystat_continues)
    with c1 show ?thesis by (rule continues_trans)
  qed
qed

text \<open>What \<open>shutil.copytree\<close> does with one entry.\<close>

definition copytree_entry ::
  "nat \<Rightarrow> string \<Rightarrow> string \<Rightarrow> bool \<Rightarrow> ignore_fn option \<Rightarrow> string \<Rightarrow> world \<Rightarrow> (error + unit) \<times> world" where
  "copytree_entry n src dst symlinks ignore name st =
     (let srcname = path_join src name;
          dstname = path_join dst name
      in if os_path_islink st srcname then
           (if symlinks then
              (case os_readlink st srcname of
                 Inl e \<Rightarrow> (Inl e, st)
               | Inr linkto \<Rightarrow>
                   (case os_symlink linkto dstname st of
                      (Inl e, st1) \<Rightarrow> (Inl e, st1)
                    | (Inr u, st1) \<Rightarrow> shutil_copystat srcname dstname False st1))
            else if os_path_isdir st srcname then
              shutil_copytree n srcname dstname symlinks ignore st
            else shutil_copy2 srcname dstname st)
         else if os_path_isdir st srcname then
           shutil_copytree n srcname dstname symlinks ignore st
         else shutil_copy2 srcname dstname st)"

lemma copytree_entries_Cons:
  "copytree_entries n src dst symlinks ignore (name # names) errors st =
     (case copytree_entry n src dst symlinks ignore name st of
        (Inr u, st1) \<Rightarrow> copytree_entries n src dst symlinks ignore names errors st1
      | (Inl (ShutilError es), st1) \<Rightarrow>
          copytree_entries n src dst symlinks ignore names (errors @ es) st1
      | (Inl e, st1) \<Rightarrow>
          if is_oserror e then
            copytree_entries n src dst symlinks ignore names
              (errors @ [(path_join src name, path_join dst name, e)]) st1
          else (Inl e, st1))"
  by (simp add: copytree_entry_def Let_def)

lemma copytree_entries_Cons_cases:
  assumes "copytree_entries n src dst symlinks ignore (name # names) errors st = (r, w')"
  shows "\<exists>r1 st1. copytree_entry n src dst symlinks ignore name st = (r1, st1) \<and>
           ((\<exists>errors'. copytree_entries n src dst symlinks ignore names errors' st1 = (r, w')) \<or>
            (w' = st1 \<and> r = map_sum id (\<lambda>u. []) r1 \<and> (\<exists>e. r1 = Inl e \<and> \<not> is_oserror e)))"
proof -
  obtain r1 st1 where e: "copytree_entry n src dst symlinks ignore name st = (r1, st1)"
    by (cases "copytree_entry n src dst symlinks ignore name st")
  show ?thesis
  proof (cases r1)
    case (Inr u)
    then show ?thesis using assms e
      by (auto simp: copytree_entries_Cons simp del: copytree_entries.simps)
  next
    case (Inl err)
    then show ?thesis using assms e
      by (cases err)
         (auto simp: copytree_entries_Cons simp del: copytree_entries.simps split: if_splits)
  qed
qed


lemma copytree_entry_cases:
  assumes "copytree_entry n src dst symlinks ignore name st = (r, w')"
  shows "shutil_copytree n (path_join src name) (path_join dst name) symlinks ignore st = (r, w') \<or>
         shutil_copy2 (path_join src name) (path_join dst name) st = (r, w') \<or>
         (symlinks \<and> os_path_islink st (path_join src name) \<and>
          ((\<exists>e. r = Inl e \<and> w' = st) \<or>
           (\<exists>linkto r1 st1. os_symlink linkto (path_join dst name) st = (r1, st1) \<and>
              (w' = st1 \<or>
               shutil_copystat (path_join src name) (path_join dst name) False st1 = (r, w')))))"
  using assms
  by (auto simp: copytree_entry_def Let_def split: if_splits sum.splits prod.splits)

lemma copytree_entry_continues:
  assumes "\<And>src dst st r w'.
      shutil_copytree n src dst symlinks ignore st = (r, w') \<Longrightarrow> continues st w'"
    and "copytree_entry n src dst symlinks ignore name st = (r, w')"
  shows "continues st w'"
proof -
  from copytree_entry_cases [OF assms(2)]
  consider
      (tree) "shutil_copytree n (path_join src name) (path_join dst name) symlinks ignore st = (r, w')"
    | (copy) "shutil_copy2 (path_join src name) (path_join dst name) st = (r, w')"
    | (same) "w' = st"
    | (link) linkto r1 st1 where "os_symlink linkto (path_join dst name) st = (r1, st1)"
        "w' = st1 \<or> shutil_copystat (path_join src name) (path_join dst name) False st1 = (r, w')"
    by blast
  then show ?thesis
  proof cases
    case tree
    then show ?thesis by (rule assms(1))
  next
    case copy
    then show ?thesis by (rule shutil_copy2_continues)
  next
    case same
    then show ?thesis by (simp add: continues_refl)
  next
    case link
    have "continues st st1" using link(1) by (auto simp: os_symlink_def dest: create_continues)
    moreover have "continues st1 w'"
      using link(2) by (auto simp: continues_refl dest: shutil_copystat_continues)
    ultimately show ?thesis by (rule continues_trans)
  qed
qed

lemma copytree_entries_continues:
  assumes "\<And>src dst st r w'.
      shutil_copytree n src dst symlinks ignore st = (r, w') \<Longrightarrow> continues st w'"
  shows "copytree_entries n src dst symlinks ignore names errors st = (r, w') \<Longrightarrow>
         continues st w'"
proof (induction names arbitrary: errors st)
  case Nil
  then show ?case by (simp add: continues_refl)
next
  case (Cons name names)
  from copytree_entries_Cons_cases [OF Cons.prems] obtain r1 st1 where
    e: "copytree_entry n src dst symlinks ignore name st = (r1, st1)"
    and f: "(\<exists>errors'. copytree_entries n src dst symlinks ignore names errors' st1 = (r, w')) \<or>
            w' = st1"
    by blast
  have "continues st st1" using copytree_entry_continues [OF assms e] .
  moreover have "continues st1 w'" using f Cons.IH by (auto simp: continues_refl)
  ultimately show ?case by (rule continues_trans)
qed

lemma shutil_copytree_continues:
  "shutil_copytree n src dst symlinks ignore st = (r, w') \<Longrightarrow> continues st w'"
proof (induction n arbitrary: src dst st r w')
  case 0
  then show ?case by (simp add: continues_refl)
next
  case (Suc n)
  show ?case
  proof (cases "os_listdir st src")
    case (Inl e)
    then show ?thesis using Suc.prems by (simp add: continues_refl)
  next
    case (Inr entries)
    obtain r1 st1 where mk: "os_makedirs dst False st = (r1, st1)"
      by (cases "os_makedirs dst False st")
    have c1: "continues st st1" using mk by (rule os_makedirs_continues)
    show ?thesis
    proof (cases r1)
      case (Inl e)
      then show ?thesis using Suc.prems Inr mk c1 by (simp add: Let_def)
    next
      case ok: (Inr u)
      let ?names = "filter (\<lambda>x. x \<notin> set (case ignore of None \<Rightarrow> [] | Some f \<Rightarrow> f src entries)) entries"
      obtain r2 st2 where en: "copytree_entries n src dst symlinks ignore ?names [] st1 = (r2, st2)"
        by (cases "copytree_entries n src dst symlinks ignore ?names [] st1")
      have c2: "continues st1 st2"
        using copytree_entries_continues [OF Suc.IH en] .
      show ?thesis
      proof (cases r2)
        case (Inl e)
        then have "w' = st2" using Suc.prems Inr mk ok en by (simp add: Let_def)
        then show ?thesis using c1 c2 by (auto intro: continues_trans)
      next
        case (Inr errors)
        obtain r3 st3 where cs: "shutil_copystat src dst True st2 = (r3, st3)"
          by (cases "shutil_copystat src dst True st2")
        have c3: "continues st2 st3" using cs by (rule shutil_copystat_continues)
        have "w' = st3"
          using Suc.prems \<open>os_listdir st src = Inr entries\<close> mk ok en Inr cs
          by (auto simp: Let_def split: sum.splits if_splits)
        then show ?thesis using c1 c2 c3 by (auto intro: continues_trans)
      qed
    qed
  qed
qed

subsection \<open>Making the destination directory\<close>

lemma path_join_tail:
  assumes "t \<noteq> []" and "sep \<notin> set t"
  shows "\<exists>x. path_join a t = x @ t \<and> (x = [] \<or> last x = sep)"
proof -
  have ns: "\<not> startswith_sep t" using assms by (cases t) (auto simp: startswith_sep_def)
  show ?thesis
  proof (cases "a = []")
    case True
    then show ?thesis by (simp add: path_join_def)
  next
    case False
    show ?thesis
    proof (cases "endswith_sep a")
      case True
      then show ?thesis using ns False by (auto simp: path_join_def endswith_sep_def)
    next
      case e: False
      then have "path_join a t = (a @ [sep]) @ t" using ns False by (simp add: path_join_def)
      then show ?thesis by (intro exI [of _ "a @ [sep]"]) simp
    qed
  qed
qed

lemma path_split_tail:
  assumes "sep \<notin> set t" and "x = [] \<or> last x = sep"
  shows "snd (path_split (x @ t)) = t"
proof -
  have a: "takeWhile (\<lambda>c. c \<noteq> sep) (rev t @ rev x) = rev t @ takeWhile (\<lambda>c. c \<noteq> sep) (rev x)"
    by (rule takeWhile_append2) (use assms(1) in auto)
  have "takeWhile (\<lambda>c. c \<noteq> sep) (rev x) = []"
  proof (cases x rule: rev_cases)
    case Nil
    then show ?thesis by simp
  next
    case (snoc ys y)
    then show ?thesis using assms(2) by simp
  qed
  with a show ?thesis by (simp add: path_split_def Let_def)
qed

lemma makedirs_split_join:
  assumes "t \<noteq> []" and "sep \<notin> set t"
  shows "snd (makedirs_split (path_join a t)) = t"
proof -
  obtain x where x: "path_join a t = x @ t" "x = [] \<or> last x = sep"
    using path_join_tail [OF assms] by blast
  have "snd (path_split (path_join a t)) = t"
    using path_split_tail [OF assms(2) x(2)] x(1) by simp
  then show ?thesis using assms(1)
    by (cases "path_split (path_join a t)") (simp add: makedirs_split_def)
qed

lemma path_join_last:
  assumes "t \<noteq> []" and "sep \<notin> set t"
  shows "path_join a t \<noteq> []" and "last (path_join a t) \<noteq> sep"
proof -
  obtain x where x: "path_join a t = x @ t" using path_join_tail [OF assms] by blast
  show "path_join a t \<noteq> []" using x assms(1) by simp
  show "last (path_join a t) \<noteq> sep" using x assms by (metis last_appendR last_in_set)
qed

lemma makedirs_join_isdir:
  assumes "os_makedirs (path_join a t) ok w = (Inr (), w')"
    and "t \<noteq> []" and "sep \<notin> set t" and "t \<noteq> ''.''"
  shows "os_path_isdir w' (path_join a t)"
proof -
  obtain head tail where sp: "makedirs_split (path_join a t) = (head, tail)"
    by (cases "makedirs_split (path_join a t)")
  then have "tail = t" using makedirs_split_join [OF assms(2,3), of a] by simp
  then show ?thesis
    using os_makedirs_isdir [OF assms(1) sp] assms(4) path_join_last [OF assms(2,3), of a]
    by simp
qed

lemma call_makedirs_world:
  "call_makedirs d ok st = (r, st') \<Longrightarrow> os_makedirs d ok (world st) = (r, world st')"
  by (auto simp: call_makedirs_def split: prod.splits)

lemma copy_item_continues:
  "copy_item src dst symlinks ignore item st = (r, st') \<Longrightarrow> continues (world st) (world st')"
  by (auto simp: copy_item_def Let_def call_isdir_def call_copytree_def call_copy2_def
      split: if_splits prod.splits
      dest: shutil_copytree_continues shutil_copy2_continues)

lemma copy_tree_items_continues:
  "copy_tree_items src dst symlinks ignore items st = (r, st') \<Longrightarrow>
   continues (world st) (world st')"
proof (induction items arbitrary: st)
  case Nil
  then show ?case by (simp add: continues_refl)
next
  case (Cons item items)
  obtain r1 st1 where s: "copy_item src dst symlinks ignore item st = (r1, st1)"
    by (cases "copy_item src dst symlinks ignore item st")
  have c1: "continues (world st) (world st1)" using s by (rule copy_item_continues)
  show ?case
  proof (cases r1)
    case (Inl e)
    then have "st' = st1"
      using Cons.prems s by (simp add: copy_tree_items_Cons del: copy_tree_items.simps)
    then show ?thesis using c1 by simp
  next
    case (Inr u)
    then have "copy_tree_items src dst symlinks ignore items st1 = (r, st')"
      using Cons.prems s by (simp add: copy_tree_items_Cons del: copy_tree_items.simps)
    from Cons.IH [OF this] c1 show ?thesis by (auto intro: continues_trans)
  qed
qed

lemma copy_tree_continues:
  "copy_tree src dst symlinks ignore st = (r, st') \<Longrightarrow> continues (world st) (world st')"
  by (auto simp: copy_tree_def call_listdir_def continues_refl split: sum.splits
      dest: copy_tree_items_continues)

lemma copy_directory_continues:
  assumes "copy_directory dir_path (Str site) st = (r, st')"
  shows "continues (world st) (world st')"
proof -
  let ?d = "path_join site dir_path"
  obtain r1 st1 where mk: "call_makedirs ?d True st = (r1, st1)"
    by (cases "call_makedirs ?d True st")
  have c1: "continues (world st) (world st1)"
    using call_makedirs_world [OF mk] by (rule os_makedirs_continues)
  show ?thesis
  proof (cases r1)
    case (Inl e)
    then show ?thesis using assms mk c1 by (simp add: copy_directory_unfold)
  next
    case (Inr u)
    then have "copy_tree (source_of dir_path) ?d False None st1 = (r, st')"
      using assms mk by (simp add: copy_directory_unfold)
    from copy_tree_continues [OF this] c1 show ?thesis by (auto intro: continues_trans)
  qed
qed


lemma components_acc_append_sep:
  "components_acc acc (a @ sep # b) = components_acc acc a @ components_acc [] b"
  by (induction a arbitrary: acc) auto

lemma components_append_sep: "components (a @ sep # b) = components a @ components b"
  by (simp add: components_def components_acc_append_sep)

lemma components_ne: "components p \<noteq> []"
  unfolding components_def
proof -
  have "components_acc acc p \<noteq> []" for acc
    by (induction p arbitrary: acc) auto
  then show "components_acc [] p \<noteq> []" .
qed

lemma components_seps: "components (replicate k sep @ b) = replicate k [] @ components b"
proof (induction k)
  case 0
  show ?case by simp
next
  case (Suc k)
  have "components (replicate (Suc k) sep @ b) = components ([] @ sep # (replicate k sep @ b))"
    by simp
  also have "\<dots> = components [] @ components (replicate k sep @ b)"
    by (rule components_append_sep)
  finally show ?case using Suc by (simp add: components_def)
qed

lemma rstrip_sep_decomp: "\<exists>k. x = rstrip_sep x @ replicate k sep"
proof -
  let ?tw = "takeWhile (\<lambda>c. c = sep) (rev x)"
  have "?tw = replicate (length ?tw) sep"
    by (rule replicate_length_same [symmetric]) (auto dest: set_takeWhileD)
  moreover have "rev x = ?tw @ dropWhile (\<lambda>c. c = sep) (rev x)" by simp
  ultimately have "rev x = replicate (length ?tw) sep @ rev (rstrip_sep x)"
    by (simp add: rstrip_sep_def)
  then have "x = rstrip_sep x @ replicate (length ?tw) sep"
    by (metis rev_append rev_replicate rev_rev_ident)
  then show ?thesis ..
qed

lemma rstrip_sep_last: "rstrip_sep x \<noteq> [] \<Longrightarrow> last (rstrip_sep x) \<noteq> sep"
proof -
  assume a: "rstrip_sep x \<noteq> []"
  let ?d = "dropWhile (\<lambda>c. c = sep) (rev x)"
  have "?d \<noteq> []" using a by (simp add: rstrip_sep_def)
  then have "hd ?d \<noteq> sep" using hd_dropWhile [of "\<lambda>c. c = sep" "rev x"] by simp
  then show ?thesis using \<open>?d \<noteq> []\<close> by (simp add: rstrip_sep_def last_rev)
qed

lemma walk_empties:
  "is_dir (inode_at fs cur) \<Longrightarrow> walk fs follow fuel cur (replicate k []) = Inr (cur, inode_at fs cur)"
  by (induction k) (simp_all add: walk_dot)

lemma path_split_head:
  assumes "sep \<notin> set t" and "x = [] \<or> last x = sep"
  shows "path_split (x @ t) =
     (if x \<noteq> [] \<and> x \<noteq> replicate (length x) sep then rstrip_sep x else x, t)"
proof -
  have a: "dropWhile (\<lambda>c. c \<noteq> sep) (rev t @ rev x) = dropWhile (\<lambda>c. c \<noteq> sep) (rev x)"
    by (rule dropWhile_append2) (use assms(1) in auto)
  have "dropWhile (\<lambda>c. c \<noteq> sep) (rev x) = rev x"
  proof (cases x rule: rev_cases)
    case Nil
    then show ?thesis by simp
  next
    case (snoc ys y)
    then show ?thesis using assms(2) by simp
  qed
  with a have "rev (dropWhile (\<lambda>c. c \<noteq> sep) (rev (x @ t))) = x" by simp
  moreover have "snd (path_split (x @ t)) = t" using assms by (rule path_split_tail)
  ultimately show ?thesis
    by (simp add: path_split_def Let_def)
qed

lemma resolve_seps: "k > 0 \<Longrightarrow> resolve w follow (replicate k sep) = Inr ([], Some (Dir 0))"
proof -
  assume k: "k > 0"
  have c: "components (replicate k sep) = replicate (Suc k) []"
    using components_seps [of k "[]"] by (simp add: components_def replicate_append_same)
  have s: "startswith_sep (replicate k sep)" using k by (cases k) (simp_all add: startswith_sep_def)
  have "walk (files w) follow max_links [] (replicate (Suc k) []) = Inr ([], inode_at (files w) [])"
    by (rule walk_empties) simp
  then show ?thesis using k s c by (simp add: resolve_def)
qed

lemma exists_parent:
  assumes "resolve w follow (x @ t) = Inr r" and "sep \<notin> set t" and "t \<noteq> []"
    and "x = [] \<or> last x = sep"
    and "path_split (x @ t) = (head, tail)"
  shows "head = [] \<or> os_path_isdir w head"
proof (cases "x = []")
  case True
  then show ?thesis using assms(5) path_split_head [OF assms(2,4)] by simp
next
  case xne: False
  show ?thesis
  proof (cases "x = replicate (length x) sep")
    case True
    then have h: "head = replicate (length x) sep"
      using assms(5) path_split_head [OF assms(2,4)] by auto
    have "length x > 0" using xne by simp
    from resolve_seps [OF this, of w True] show ?thesis
      using h by (simp add: isdir_iff)
  next
    case False
    then have h: "head = rstrip_sep x"
      using assms(5) path_split_head [OF assms(2,4)] xne by auto
    obtain k where k: "x = head @ replicate k sep" using rstrip_sep_decomp [of x] h by auto
    have hne: "head \<noteq> []" using k False by auto
    have kpos: "k > 0"
      using k assms(4) xne rstrip_sep_last [of x] h hne by (cases k) auto
    then obtain j where j: "k = Suc j" by (cases k) auto
    have "x @ t = head @ sep # (replicate j sep @ t)" using k j by simp
    then have c: "components (x @ t) = components head @ (replicate j [] @ components t)"
      using components_append_sep [of head "replicate j sep @ t"] components_seps [of j t]
      by simp
    have sw: "startswith_sep (x @ t) = startswith_sep head"
      using k hne by (cases head) (simp_all add: startswith_sep_def)
    have "walk (files w) follow max_links (if startswith_sep head then [] else cwd w)
        (components head @ (replicate j [] @ components t)) = Inr r"
      using assms(1) c sw xne by (simp add: resolve_def)
    from walk_prefix [OF _ _ this, of True] obtain q where
      "walk (files w) True max_links (if startswith_sep head then [] else cwd w) (components head)
         = Inr (q, inode_at (files w) q)" "is_dir (inode_at (files w) q)"
      using components_ne [of t] by auto
    then show ?thesis using hne by (auto simp: isdir_iff resolve_def is_dir_iff)
  qed
qed

lemma isdir_exists: "os_path_isdir w p \<Longrightarrow> os_path_exists w p"
  by (auto simp: isdir_iff exists_iff)

lemma makedirs_existing:
  assumes "os_path_isdir w (path_join a t)" and "t \<noteq> []" and "sep \<notin> set t"
  shows "os_makedirs (path_join a t) True w = (Inr (), w)"
proof -
  let ?d = "path_join a t"
  obtain x where x: "?d = x @ t" "x = [] \<or> last x = sep"
    using path_join_tail [OF assms(2,3)] by blast
  obtain q m where r: "resolve w True ?d = Inr (q, Some (Dir m))"
    using assms(1) by (auto simp: isdir_iff)
  obtain head tail where ps: "path_split ?d = (head, tail)" by (cases "path_split ?d")
  have tl: "tail = t" using path_split_tail [OF assms(3) x(2)] x(1) ps by simp
  then have sp: "makedirs_split ?d = (head, t)"
    using ps assms(2) by (simp add: makedirs_split_def)
  have par: "head = [] \<or> os_path_exists w head"
    using exists_parent [OF r [unfolded x(1)] assms(3,2) x(2)] ps x(1)
    by (auto dest: isdir_exists)
  have dne: "?d \<noteq> []" "last ?d \<noteq> sep" using path_join_last [OF assms(2,3)] by auto
  have "\<exists>q' n'. resolve w False ?d = Inr (q', Some n')"
    using r dne(1) walk_nofollow [of True "files w" max_links _ "components ?d" q "Dir m"]
    by (auto simp: resolve_def split: if_splits)
  then have "os_mkdir ?d w = (Inl FileExistsError, w)"
    using dne by (auto simp: os_mkdir_def rstrip_sep_id create_def)
  then have "makedirs_leaf ?d True w = (Inr (), w)"
    using assms(1) by (simp add: makedirs_leaf_def)
  then show ?thesis using sp par by (subst os_makedirs.simps) auto
qed

subsection \<open>Making a path of directories\<close>

text \<open>
  An absolute path name written from its names; a name is a non-empty string without
  slash other than \<open>.\<close> and \<open>..\<close>.
\<close>

definition abs_name :: "string list \<Rightarrow> string" where
  "abs_name ns = concat (map (\<lambda>n. sep # n) ns)"

definition name_ok :: "string \<Rightarrow> bool" where
  "name_ok n = (plain n \<and> sep \<notin> set n)"

fun free_or_dir :: "inode option \<Rightarrow> bool" where
  "free_or_dir None = True"
| "free_or_dir (Some (Dir m)) = True"
| "free_or_dir x = False"

text \<open>
  Along the path \<open>cs\<close> below \<open>cur\<close>: \<open>clear\<close>, nothing but directories or nothing at
  all; \<open>dirs\<close>, every proper prefix is a directory; \<open>alldirs\<close>, the whole path as well.
\<close>

fun clear :: "filesys \<Rightarrow> path \<Rightarrow> string list \<Rightarrow> bool" where
  "clear fs cur [] = free_or_dir (inode_at fs cur)"
| "clear fs cur (c # cs) = (free_or_dir (inode_at fs cur) \<and> clear fs (cur @ [c]) cs)"

fun dirs :: "filesys \<Rightarrow> path \<Rightarrow> string list \<Rightarrow> bool" where
  "dirs fs cur [] = True"
| "dirs fs cur (c # cs) = (is_dir (inode_at fs cur) \<and> dirs fs (cur @ [c]) cs)"

definition alldirs :: "filesys \<Rightarrow> path \<Rightarrow> string list \<Rightarrow> bool" where
  "alldirs fs cur cs = (dirs fs cur cs \<and> is_dir (inode_at fs (cur @ cs)))"

lemma free_or_dir_iff: "free_or_dir x = (x = None \<or> is_dir x)"
  by (cases x rule: free_or_dir.cases) auto

lemma clear_snoc:
  "clear fs cur (cs @ [c]) = (clear fs cur cs \<and> free_or_dir (inode_at fs (cur @ cs @ [c])))"
  by (induction cs arbitrary: cur) auto

lemma dirs_snoc: "dirs fs cur (cs @ [c]) = (dirs fs cur cs \<and> is_dir (inode_at fs (cur @ cs)))"
  by (induction cs arbitrary: cur) auto

lemma clear_last: "clear fs cur cs \<Longrightarrow> free_or_dir (inode_at fs (cur @ cs))"
proof (induction cs arbitrary: cur)
  case Nil
  then show ?case by simp
next
  case (Cons c cs)
  from Cons.prems have "clear fs (cur @ [c]) cs" by simp
  from Cons.IH [OF this] show ?case by simp
qed

lemma walk_None:
  "inode_at fs cur = None \<Longrightarrow> walk fs follow fuel cur (c # cs) = Inl FileNotFoundError"
  by (simp add: walk.simps(2))

lemma walk_clear:
  assumes "list_all name_ok cs" and "clear fs cur cs"
  shows "walk fs follow fuel cur cs =
     (if dirs fs cur cs then Inr (cur @ cs, inode_at fs (cur @ cs)) else Inl FileNotFoundError)"
  using assms
proof (induction cs arbitrary: cur)
  case Nil
  show ?case by simp
next
  case (Cons c cs)
  have pl: "plain c" using Cons.prems(1) by (simp add: name_ok_def)
  have rest: "list_all name_ok cs" "clear fs (cur @ [c]) cs" using Cons.prems by simp_all
  note ih = Cons.IH [OF rest]
  show ?case
  proof (cases "inode_at fs cur")
    case None
    then show ?thesis by (simp add: walk_None)
  next
    case (Some nd)
    then have d: "is_dir (inode_at fs cur)" using Cons.prems(2) by (auto simp: free_or_dir_iff)
    have f: "free_or_dir (inode_at fs (cur @ [c]))" using rest(2) by (cases cs) auto
    show ?thesis
    proof (cases "inode_at fs (cur @ [c])")
      case None
      then show ?thesis using d pl by (cases cs) (simp_all add: walk_missing)
    next
      case s2: (Some nd2)
      then have "\<not> is_link (Some nd2)" using f by (cases nd2) auto
      then show ?thesis using d pl s2 ih by (simp add: walk_other)
    qed
  qed
qed

lemma components_name: "sep \<notin> set n \<Longrightarrow> components n = [n]"
proof -
  have "sep \<notin> set n \<Longrightarrow> components_acc acc n = [rev acc @ n]" for acc
    by (induction n arbitrary: acc) auto
  then show "sep \<notin> set n \<Longrightarrow> components n = [n]" by (simp add: components_def)
qed

lemma abs_name_snoc: "abs_name (ns @ [n]) = abs_name ns @ sep # n"
  by (simp add: abs_name_def)

lemma abs_name_last:
  assumes "list_all name_ok ns" and "ns \<noteq> []"
  shows "abs_name ns \<noteq> []" and "last (abs_name ns) \<noteq> sep"
    and "startswith_sep (abs_name ns)"
proof -
  obtain ms n where ns: "ns = ms @ [n]" using assms(2) by (cases ns rule: rev_cases) auto
  then have n: "n \<noteq> []" "sep \<notin> set n" using assms(1) by (simp_all add: name_ok_def plain_def)
  have a: "abs_name ns = abs_name ms @ sep # n" using ns by (simp add: abs_name_snoc)
  show "abs_name ns \<noteq> []" using a by simp
  show "last (abs_name ns) \<noteq> sep" using a n by (metis last_ConsR last_appendR last_in_set list.distinct(1))
  show "startswith_sep (abs_name ns)"
    using assms(2) by (cases ns) (simp_all add: abs_name_def startswith_sep_def)
qed

text \<open>Between two worlds only directories were added.\<close>

definition only_dirs_added :: "world \<Rightarrow> world \<Rightarrow> bool" where
  "only_dirs_added w w' =
     (cwd w' = cwd w \<and>
      (\<forall>p. inode_at (files w') p = inode_at (files w) p \<or>
           (inode_at (files w) p = None \<and> is_dir (inode_at (files w') p))))"

lemma only_dirs_added_refl: "only_dirs_added w w"
  by (simp add: only_dirs_added_def)

lemma only_dirs_added_free_or_dir:
  "only_dirs_added w w' \<Longrightarrow> free_or_dir (inode_at (files w) p) \<Longrightarrow>
   free_or_dir (inode_at (files w') p)"
  unfolding only_dirs_added_def free_or_dir_iff by metis

lemma only_dirs_added_clear:
  "only_dirs_added w w' \<Longrightarrow> clear (files w) cur cs \<Longrightarrow> clear (files w') cur cs"
  by (induction cs arbitrary: cur) (auto intro: only_dirs_added_free_or_dir)

lemma dirs_put_last:
  "dirs fs cur cs \<Longrightarrow> cs \<noteq> [] \<Longrightarrow> dirs (fs_put (cur @ cs) n fs) cur cs"
proof (induction cs arbitrary: cur)
  case Nil
  then show ?case by simp
next
  case (Cons c cs)
  have a: "is_dir (inode_at (fs_put (cur @ c # cs) n fs) cur)"
    using Cons.prems(1) by (simp add: inode_at_fs_put)
  show ?case
  proof (cases "cs = []")
    case True
    then show ?thesis using a by simp
  next
    case False
    have "dirs (fs_put ((cur @ [c]) @ cs) n fs) (cur @ [c]) cs"
      using Cons.IH [of "cur @ [c]"] Cons.prems(1) False by simp
    then show ?thesis using a by simp
  qed
qed

lemma rstrip_sep_snoc: "rstrip_sep (y @ [sep]) = rstrip_sep y"
  by (simp add: rstrip_sep_def)

lemma makedirs_split_abs:
  assumes "list_all name_ok (ns @ [n])"
  shows "makedirs_split (abs_name (ns @ [n])) = (if ns = [] then [sep] else abs_name ns, n)"
proof -
  have n: "n \<noteq> []" "sep \<notin> set n" using assms by (simp_all add: name_ok_def plain_def)
  let ?x = "abs_name ns @ [sep]"
  have ps: "path_split (?x @ n) =
     (if ?x \<noteq> [] \<and> ?x \<noteq> replicate (length ?x) sep then rstrip_sep ?x else ?x, n)"
    by (rule path_split_head) (use n in simp_all)
  have hd: "(if ?x \<noteq> [] \<and> ?x \<noteq> replicate (length ?x) sep then rstrip_sep ?x else ?x) =
     (if ns = [] then [sep] else abs_name ns)"
  proof (cases "ns = []")
    case True
    then show ?thesis by (simp add: abs_name_def)
  next
    case False
    have ok: "list_all name_ok ns" using assms by simp
    have l: "abs_name ns \<noteq> []" "last (abs_name ns) \<noteq> sep"
      using abs_name_last [OF ok False] by simp_all
    have "last (abs_name ns) \<in> set ?x" using l(1) by simp
    then have "?x \<noteq> replicate (length ?x) sep"
      using l(2) by (metis in_set_replicate)
    then show ?thesis using False l by (simp add: rstrip_sep_snoc rstrip_sep_id)
  qed
  have "path_split (abs_name (ns @ [n])) = (if ns = [] then [sep] else abs_name ns, n)"
    using ps hd by (simp add: abs_name_snoc)
  then show ?thesis using n by (simp add: makedirs_split_def)
qed

subsection \<open>Copying one entry\<close>














subsection \<open>Copying a tree\<close>

text \<open>
  A path name is tidy when it is not empty and does not end with a slash; the names the
  hook builds are. Below a tidy name that resolves to a directory, an entry resolves to
  the path of the directory extended by the entry's name.
\<close>

definition tidy :: "string \<Rightarrow> bool" where
  "tidy p = (p \<noteq> [] \<and> last p \<noteq> sep)"


lemma tidy_join:
  assumes "tidy s" and "name_ok c"
  shows "path_join s c = s @ sep # c" and "tidy (path_join s c)"
    and "components (path_join s c) = components s @ [c]"
    and "startswith_sep (path_join s c) = startswith_sep s"
proof -
  have c: "c \<noteq> []" "sep \<notin> set c" using assms(2) by (simp_all add: name_ok_def plain_def)
  have ns: "\<not> startswith_sep c" using c by (cases c) (auto simp: startswith_sep_def)
  show j: "path_join s c = s @ sep # c"
    using assms(1) ns by (simp add: path_join_def tidy_def endswith_sep_def)
  show "tidy (path_join s c)"
    using path_join_last [OF c, of s] by (simp add: tidy_def)
  show "components (path_join s c) = components s @ [c]"
    using j c by (simp add: components_append_sep components_name)
  show "startswith_sep (path_join s c) = startswith_sep s"
    using j assms(1) by (cases s) (simp_all add: startswith_sep_def tidy_def)
qed


lemma path_split_tidy_join:
  assumes "tidy s" and "name_ok c"
  shows "makedirs_split (path_join s c) = (s, c)"
proof -
  have c: "c \<noteq> []" "sep \<notin> set c" using assms(2) by (simp_all add: name_ok_def plain_def)
  have s: "s \<noteq> []" "last s \<noteq> sep" using assms(1) by (simp_all add: tidy_def)
  have r: "rev (s @ sep # c) = rev c @ sep # rev s" by simp
  have "takeWhile (\<lambda>x. x \<noteq> sep) (rev c @ sep # rev s) =
      rev c @ takeWhile (\<lambda>x. x \<noteq> sep) (sep # rev s)"
    by (rule takeWhile_append2) (use c in auto)
  then have t: "takeWhile (\<lambda>x. x \<noteq> sep) (rev c @ sep # rev s) = rev c" by simp
  have "dropWhile (\<lambda>x. x \<noteq> sep) (rev c @ sep # rev s) =
      dropWhile (\<lambda>x. x \<noteq> sep) (sep # rev s)"
    by (rule dropWhile_append2) (use c in auto)
  then have d: "dropWhile (\<lambda>x. x \<noteq> sep) (rev c @ sep # rev s) = sep # rev s" by simp
  have hd: "hd (rev s) \<noteq> sep" using s by (simp add: hd_rev)
  have rs: "rstrip_sep (s @ [sep]) = s"
    using s hd by (cases "rev s") (auto simp: rstrip_sep_def)
  have nall: "s @ [sep] \<noteq> replicate (length (s @ [sep])) sep"
  proof
    assume "s @ [sep] = replicate (length (s @ [sep])) sep"
    then have "set (s @ [sep]) \<subseteq> {sep}" by (metis set_replicate_conv_if subset_refl empty_subsetI)
    then have "set s \<subseteq> {sep}" by simp
    moreover have "last s \<in> set s" using s(1) by simp
    ultimately show False using s(2) by auto
  qed
  have "path_split (s @ sep # c) = (s, c)"
    unfolding path_split_def Let_def r t d using rs nall by simp
  then show ?thesis
    using c tidy_join(1) [OF assms] by (simp add: makedirs_split_def)
qed


definition below :: "path \<Rightarrow> path \<Rightarrow> bool" where
  "below Q p = (take (length Q) p = Q)"


lemma below_append [simp]: "below Q (Q @ b)"
  by (simp add: below_def)














































subsection \<open>The destination of a job\<close>

text \<open>
  A path name written from its names, absolute (\<open>/n1/.../nk\<close>) or relative to the working
  directory (\<open>n1/.../nk\<close>), and the directory its resolution starts from.
\<close>

definition path_name :: "bool \<Rightarrow> string list \<Rightarrow> string" where
  "path_name rooted ns = (if rooted then abs_name ns else tl (abs_name ns))"

definition base :: "bool \<Rightarrow> world \<Rightarrow> path" where
  "base rooted w = (if rooted then [] else cwd w)"

lemma abs_name_Cons: "abs_name (n # ns) = sep # n @ abs_name ns"
  by (simp add: abs_name_def)

lemma path_name_snoc:
  assumes "ns \<noteq> []"
  shows "path_name r (ns @ [n]) = path_name r ns @ sep # n"
proof -
  have "abs_name ns \<noteq> []" using assms by (cases ns) (simp_all add: abs_name_def)
  then show ?thesis by (simp add: path_name_def abs_name_snoc)
qed

lemma path_name_all:
  "ns \<noteq> [] \<Longrightarrow> list_all name_ok ns \<Longrightarrow>
   tidy (path_name r ns) \<and> startswith_sep (path_name r ns) = r \<and>
   components (path_name r ns) = (if r then [] # ns else ns)"
proof (induction ns rule: rev_nonempty_induct)
  case (single n)
  then have n: "n \<noteq> []" "sep \<notin> set n" by (simp_all add: name_ok_def plain_def)
  then have l: "last n \<noteq> sep" by (cases n rule: rev_cases) auto
  have h: "\<not> startswith_sep n" using n by (cases n) (auto simp: startswith_sep_def)
  have "components ([] @ sep # n) = components [] @ components n"
    by (rule components_append_sep)
  then have c: "components (sep # n) = [] # [n]"
    using components_name [OF n(2)] by (simp add: components_def [of "[]"])
  show ?case
    using n l h c
    by (simp add: path_name_def abs_name_def tidy_def startswith_sep_def components_name)
next
  case (snoc n ns)
  have ok: "list_all name_ok ns" and nk: "name_ok n" using snoc.prems by simp_all
  then have n: "n \<noteq> []" "sep \<notin> set n" by (simp_all add: name_ok_def plain_def)
  have l: "last n \<noteq> sep" using n by (cases n rule: rev_cases) auto
  note ih = snoc.IH [OF ok]
  have e: "path_name r (ns @ [n]) = path_name r ns @ sep # n"
    using path_name_snoc [OF snoc.hyps(1)] .
  have 1: "tidy (path_name r (ns @ [n]))" using n l by (simp add: e tidy_def)
  have 2: "startswith_sep (path_name r (ns @ [n])) = r"
    using ih by (cases "path_name r ns") (simp_all add: e startswith_sep_def tidy_def)
  have 3: "components (path_name r (ns @ [n])) = (if r then [] # ns @ [n] else ns @ [n])"
    using ih n by (simp add: e components_append_sep components_name)
  show ?case using 1 2 3 by simp
qed

lemma path_name_facts:
  assumes "list_all name_ok ns" and "ns \<noteq> []"
  shows "tidy (path_name r ns)"
    and "startswith_sep (path_name r ns) = r"
    and "components (path_name r ns) = (if r then [] # ns else ns)"
  using path_name_all [OF assms(2,1), of r] by simp_all

lemma path_join_name:
  assumes "list_all name_ok ns" and "ns \<noteq> []" and "name_ok t"
  shows "path_join (path_name r ns) t = path_name r (ns @ [t])"
  using tidy_join(1) [OF path_name_facts(1) [OF assms(1,2)] assms(3)] path_name_snoc [OF assms(2)]
  by simp

lemma resolve_name:
  assumes "list_all name_ok ns" and "ns \<noteq> []" and "clear (files w) (base r w) ns"
  shows "resolve w follow (path_name r ns) =
     (if dirs (files w) (base r w) ns
      then Inr (base r w @ ns, inode_at (files w) (base r w @ ns))
      else Inl FileNotFoundError)"
proof -
  have t: "path_name r ns \<noteq> []" using path_name_facts(1) [OF assms(1,2)] by (simp add: tidy_def)
  show ?thesis
  proof (cases r)
    case True
    have "resolve w follow (path_name r ns) = walk (files w) follow max_links [] ([] # ns)"
      using t path_name_facts(2,3) [OF assms(1,2), of r] True by (simp add: resolve_def)
    also have "\<dots> = walk (files w) follow max_links [] ns" by (simp add: walk_dot)
    finally show ?thesis using walk_clear [OF assms(1), of "files w" "[]"] assms(3) True
      by (simp add: base_def)
  next
    case False
    have "resolve w follow (path_name r ns) = walk (files w) follow max_links (cwd w) ns"
      using t path_name_facts(2,3) [OF assms(1,2), of r] False by (simp add: resolve_def)
    then show ?thesis using walk_clear [OF assms(1), of "files w" "cwd w"] assms(3) False
      by (simp add: base_def)
  qed
qed


text \<open>
  Between two worlds only directories were added, each strictly below \<open>cur\<close> and on the way
  to \<open>cur @ cs\<close>.
\<close>

definition on_path :: "path \<Rightarrow> string list \<Rightarrow> path \<Rightarrow> bool" where
  "on_path cur cs p = (below cur p \<and> p \<noteq> cur \<and> below p (cur @ cs))"

definition dirs_made :: "path \<Rightarrow> string list \<Rightarrow> world \<Rightarrow> world \<Rightarrow> bool" where
  "dirs_made cur cs w w' =
     (cwd w' = cwd w \<and>
      (\<forall>p. inode_at (files w') p = inode_at (files w) p \<or>
           (inode_at (files w) p = None \<and> is_dir (inode_at (files w') p) \<and> on_path cur cs p)))"

lemma on_path_snoc: "on_path cur cs p \<Longrightarrow> on_path cur (cs @ [c]) p"
proof -
  assume a: "on_path cur cs p"
  then have t: "take (length p) (cur @ cs) = p" by (simp add: on_path_def below_def)
  have "length (take (length p) (cur @ cs)) \<le> length (cur @ cs)" by simp
  then have "length p \<le> length (cur @ cs)" unfolding t .
  then have "take (length p) ((cur @ cs) @ [c]) = take (length p) (cur @ cs)" by simp
  then show ?thesis using a t by (simp add: on_path_def below_def)
qed

lemma on_path_end: "cs \<noteq> [] \<Longrightarrow> on_path cur cs (cur @ cs)"
  by (simp add: on_path_def below_def)

lemma dirs_made_refl: "dirs_made cur cs w w"
  by (simp add: dirs_made_def)

lemma dirs_made_only: "dirs_made cur cs w w' \<Longrightarrow> only_dirs_added w w'"
  unfolding dirs_made_def only_dirs_added_def by blast

lemma dirs_made_snoc: "dirs_made cur cs w w' \<Longrightarrow> dirs_made cur (cs @ [c]) w w'"
  unfolding dirs_made_def using on_path_snoc by blast

lemma dirs_made_trans:
  assumes "dirs_made cur cs a b" and "dirs_made cur cs b c"
  shows "dirs_made cur cs a c"
  unfolding dirs_made_def
proof (intro conjI allI)
  show "cwd c = cwd a" using assms by (simp add: dirs_made_def)
  fix p
  have 1: "inode_at (files b) p = inode_at (files a) p \<or>
           (inode_at (files a) p = None \<and> is_dir (inode_at (files b) p) \<and> on_path cur cs p)"
    using assms(1) by (simp add: dirs_made_def)
  have 2: "inode_at (files c) p = inode_at (files b) p \<or>
           (inode_at (files b) p = None \<and> is_dir (inode_at (files c) p) \<and> on_path cur cs p)"
    using assms(2) by (simp add: dirs_made_def)
  show "inode_at (files c) p = inode_at (files a) p \<or>
           (inode_at (files a) p = None \<and> is_dir (inode_at (files c) p) \<and> on_path cur cs p)"
    using 1 2 by (auto simp: is_dir_iff)
qed

lemma makedirs_leaf_name:
  assumes "list_all name_ok ns" and "ns \<noteq> []" and "clear (files w) (base r w) ns"
    and "dirs (files w) (base r w) ns"
  shows "\<exists>w'. makedirs_leaf (path_name r ns) True w = (Inr (), w') \<and>
              alldirs (files w') (base r w) ns \<and> dirs_made (base r w) ns w w'"
proof -
  let ?b = "base r w" and ?d = "path_name r ns"
  have rs: "resolve w follow ?d = Inr (?b @ ns, inode_at (files w) (?b @ ns))" for follow
    using resolve_name [OF assms(1,2,3)] assms(4) by simp
  have l: "?d \<noteq> []" "last ?d \<noteq> sep"
    using path_name_facts(1) [OF assms(1,2), of r] by (simp_all add: tidy_def)
  have f: "free_or_dir (inode_at (files w) (?b @ ns))" using clear_last [OF assms(3)] by simp
  show ?thesis
  proof (cases "inode_at (files w) (?b @ ns)")
    case None
    let ?w' = "w\<lparr>files := fs_put (?b @ ns) (Dir default_meta) (files w)\<rparr>"
    have "os_mkdir ?d w = (Inr (), ?w')"
      using rs [of False] None l by (simp add: os_mkdir_def rstrip_sep_id create_def)
    then have 1: "makedirs_leaf ?d True w = (Inr (), ?w')"
      by (simp add: makedirs_leaf_def)
    have 2: "alldirs (files ?w') ?b ns"
      using dirs_put_last [OF assms(4) assms(2)] assms(2)
      by (simp add: alldirs_def inode_at_fs_put)
    have 3: "dirs_made ?b ns w ?w'"
      unfolding dirs_made_def
    proof (intro conjI allI)
      show "cwd ?w' = cwd w" by simp
      fix p
      show "inode_at (files ?w') p = inode_at (files w) p \<or>
           (inode_at (files w) p = None \<and> is_dir (inode_at (files ?w') p) \<and> on_path ?b ns p)"
      proof (cases "p = ?b @ ns")
        case True
        then show ?thesis using None on_path_end [OF assms(2), of ?b]
          by (simp add: inode_at_fs_put)
      next
        case False
        then show ?thesis by (simp add: inode_at_fs_put)
      qed
    qed
    show ?thesis using 1 2 3 by blast
  next
    case (Some nd)
    then obtain m where d: "inode_at (files w) (?b @ ns) = Some (Dir m)"
      using f by (cases nd) auto
    have "os_mkdir ?d w = (Inl FileExistsError, w)"
      using rs [of False] d l by (simp add: os_mkdir_def rstrip_sep_id create_def)
    moreover have "os_path_isdir w ?d" using rs [of True] d by (simp add: isdir_iff)
    ultimately have 1: "makedirs_leaf ?d True w = (Inr (), w)"
      by (simp add: makedirs_leaf_def)
    have 2: "alldirs (files w) ?b ns" using assms(4) d by (simp add: alldirs_def)
    show ?thesis using 1 2 dirs_made_refl by blast
  qed
qed

lemma makedirs_split_single:
  assumes "name_ok n"
  shows "makedirs_split (path_name r [n]) = (if r then [sep] else [], n)"
proof -
  have n: "n \<noteq> []" "sep \<notin> set n" using assms by (simp_all add: name_ok_def plain_def)
  show ?thesis
  proof (cases r)
    case True
    have "list_all name_ok ([] @ [n])" using assms by simp
    from makedirs_split_abs [OF this] show ?thesis using True by (simp add: path_name_def)
  next
    case False
    have "path_split ([] @ n) = ([], n)"
      using path_split_head [OF n(2), of "[]"] by simp
    then show ?thesis using False n by (simp add: path_name_def abs_name_def makedirs_split_def)
  qed
qed

lemma os_makedirs_name:
  "ns \<noteq> [] \<Longrightarrow> list_all name_ok ns \<Longrightarrow> clear (files w) (base r w) ns \<Longrightarrow>
   is_dir (inode_at (files w) (base r w)) \<Longrightarrow>
   \<exists>w'. os_makedirs (path_name r ns) True w = (Inr (), w') \<and>
        alldirs (files w') (base r w) ns \<and> dirs_made (base r w) ns w w'"
proof (induction ns arbitrary: w rule: rev_nonempty_induct)
  case (single n)
  have nk: "name_ok n" using single.prems(1) by simp
  have sp: "makedirs_split (path_name r [n]) = (if r then [sep] else [], n)"
    using makedirs_split_single [OF nk] .
  have "os_path_exists w [sep]"
    using resolve_seps [of 1 w True] by (simp add: exists_iff)
  then have "os_makedirs (path_name r [n]) True w = makedirs_leaf (path_name r [n]) True w"
    using sp by (subst os_makedirs.simps) simp
  moreover have "dirs (files w) (base r w) [n]" using single.prems(3) by simp
  ultimately show ?case
    using makedirs_leaf_name [OF single.prems(1) _ single.prems(2)] by simp
next
  case (snoc n ns)
  let ?b = "base r w"
  have ok: "list_all name_ok ns" and nk: "name_ok n" using snoc.prems(1) by simp_all
  have n: "n \<noteq> []" "n \<noteq> ''.''" using nk by (simp_all add: name_ok_def plain_def)
  have cl: "clear (files w) ?b ns" using snoc.prems(2) by (simp add: clear_snoc)
  have t: "tidy (path_name r ns)" using path_name_facts(1) [OF ok snoc.hyps(1)] .
  have e: "path_name r (ns @ [n]) = path_join (path_name r ns) n"
    using path_join_name [OF ok snoc.hyps(1) nk] by simp
  have sp: "makedirs_split (path_name r (ns @ [n])) = (path_name r ns, n)"
    unfolding e using path_split_tidy_join [OF t nk] .
  have ne: "path_name r ns \<noteq> []" using t by (simp add: tidy_def)
  have nn: "ns @ [n] \<noteq> []" by simp
  note rs = resolve_name [OF ok snoc.hyps(1) cl, of True]
  show ?case
  proof (cases "os_path_exists w (path_name r ns)")
    case True
    then have d: "dirs (files w) ?b ns" and s: "inode_at (files w) (?b @ ns) \<noteq> None"
      using rs by (auto simp: exists_iff split: if_splits)
    have "is_dir (inode_at (files w) (?b @ ns))"
      using clear_last [OF cl] s by (simp add: free_or_dir_iff)
    then have "dirs (files w) ?b (ns @ [n])" using d by (simp add: dirs_snoc)
    moreover have "os_makedirs (path_name r (ns @ [n])) True w =
        makedirs_leaf (path_name r (ns @ [n])) True w"
      using sp True by (subst os_makedirs.simps) simp
    ultimately show ?thesis
      using makedirs_leaf_name [OF snoc.prems(1) nn snoc.prems(2)] by simp
  next
    case ex: False
    from snoc.IH [OF ok cl snoc.prems(3)] obtain w1 where
      w1: "os_makedirs (path_name r ns) True w = (Inr (), w1)"
        "alldirs (files w1) ?b ns" "dirs_made ?b ns w w1"
      by blast
    have b1: "base r w1 = ?b" using w1(3) by (simp add: dirs_made_def base_def)
    have st: "os_makedirs (path_name r (ns @ [n])) True w =
        makedirs_leaf (path_name r (ns @ [n])) True w1"
      using sp ne ex w1(1) n by (subst os_makedirs.simps) simp
    have c1: "clear (files w1) (base r w1) (ns @ [n])"
      using only_dirs_added_clear [OF dirs_made_only [OF w1(3)] snoc.prems(2)] b1 by simp
    have d1: "dirs (files w1) (base r w1) (ns @ [n])"
      using w1(2) b1 by (simp add: alldirs_def dirs_snoc)
    from makedirs_leaf_name [OF snoc.prems(1) nn c1 d1] obtain w' where
      w': "makedirs_leaf (path_name r (ns @ [n])) True w1 = (Inr (), w')"
        "alldirs (files w') ?b (ns @ [n])" "dirs_made ?b (ns @ [n]) w1 w'"
      using b1 by auto
    have "dirs_made ?b (ns @ [n]) w w'"
      using dirs_made_trans [OF dirs_made_snoc [OF w1(3)] w'(3)] .
    then show ?thesis using st w'(1,2) by auto
  qed
qed


lemma extends_dirs: "extends fs fs' \<Longrightarrow> dirs fs cur cs \<Longrightarrow> dirs fs' cur cs"
  by (induction cs arbitrary: cur) (auto intro: extends_is_dir)

lemma continues_alldirs:
  "continues w w' \<Longrightarrow> alldirs (files w) cur cs \<Longrightarrow> alldirs (files w') cur cs"
  by (auto simp: continues_def alldirs_def intro: extends_dirs extends_is_dir)

lemma copy_directory_world:
  assumes "os_makedirs (path_join site dir_path) True (world st) = (r1, w1)"
  shows "copy_directory dir_path (Str site) st =
     (case r1 of
        Inl e \<Rightarrow>
          (Inl e, st\<lparr>world := w1, trace := trace st @ [Makedirs (path_join site dir_path) True]\<rparr>)
      | Inr u \<Rightarrow>
          copy_tree (source_of dir_path) (path_join site dir_path) False None
            (st\<lparr>world := w1, trace := trace st @ [Makedirs (path_join site dir_path) True]\<rparr>))"
  using assms by (simp add: copy_directory_unfold call_makedirs_def split: sum.splits)

section \<open>Properties\<close>

text \<open>
  C1. With the site directory \<open>/out\<close>, \<open>build\<close> holding \<open>app.js\<close> and \<open>demos\<close> holding
  \<open>demo1/index.html\<close>, the hook returns normally, and afterwards \<open>/out/dist/app.js\<close>
  and \<open>/out/demos/demo1/index.html\<close> are regular files with the content and the metadata
  of their sources; reading them gives what reading the sources gives.
\<close>

theorem publish_scenario:
  "case copy_static_files [''site_dir'' \<mapsto> Str ''/out''] kwargs (scenario c1 m1 c2 m2 n) of
     (r, st) \<Rightarrow>
       r = Inr () \<and>
       resolve (world st) True ''/out/dist/app.js'' =
         Inr ([''out'', ''dist'', ''app.js''], Some (File c1 m1)) \<and>
       resolve (world st) True ''/out/demos/demo1/index.html'' =
         Inr ([''out'', ''demos'', ''demo1'', ''index.html''], Some (File c2 m2)) \<and>
       read_file (world st) ''/out/dist/app.js'' = Inr c1 \<and>
       read_file (world st) ''build/app.js'' = Inr c1 \<and>
       read_file (world st) ''/out/demos/demo1/index.html'' = Inr c2 \<and>
       read_file (world st) ''demos/demo1/index.html'' = Inr c2"
  by code_simp

text \<open>
  C8. The hook reads \<open>config['site_dir']\<close> and nothing else of its arguments: two calls
  in the same state whose configurations agree on that key return the same result and
  leave the same state, whatever the other keys and the keyword arguments are.
\<close>

theorem copy_static_files_reads_site_dir_only:
  "cfg ''site_dir'' = cfg' ''site_dir'' \<Longrightarrow>
   copy_static_files cfg kw st = copy_static_files cfg' kw' st"
  by (simp add: copy_static_files_def)

theorem copy_static_files_reads_site_dir_only_witness:
  "[''site_dir'' \<mapsto> Str ''/out'', ''docs_dir'' \<mapsto> Str ''docs''] ''site_dir'' =
     [''site_dir'' \<mapsto> Str ''/out'', ''strict'' \<mapsto> Other 1] ''site_dir'' \<and>
   copy_static_files [''site_dir'' \<mapsto> Str ''/out'', ''docs_dir'' \<mapsto> Str ''docs'']
       Map.empty (scenario ''a'' 1 ''b'' 2 0) =
     copy_static_files [''site_dir'' \<mapsto> Str ''/out'', ''strict'' \<mapsto> Other 1]
       [''builder'' \<mapsto> Other 7] (scenario ''a'' 1 ''b'' 2 0)"
proof -
  have h: "[''site_dir'' \<mapsto> Str ''/out'', ''docs_dir'' \<mapsto> Str ''docs''] ''site_dir'' =
     [''site_dir'' \<mapsto> Str ''/out'', ''strict'' \<mapsto> Other 1] ''site_dir''"
    by simp
  show ?thesis
    using h copy_static_files_reads_site_dir_only
      [where cfg = "[''site_dir'' \<mapsto> Str ''/out'', ''docs_dir'' \<mapsto> Str ''docs'']"
         and cfg' = "[''site_dir'' \<mapsto> Str ''/out'', ''strict'' \<mapsto> Other 1]"
         and kw = Map.empty and kw' = "[''builder'' \<mapsto> Other 7]"
         and st = "scenario ''a'' 1 ''b'' 2 0", OF h]
    by blast
qed

text \<open>
  C2. In every run with a string as site directory, the calls the hook makes are the calls
  of a job that reads \<open>build\<close> and writes to the site directory joined with \<open>dist\<close>,
  followed (unless that job raises) by the calls of a job that reads \<open>demos\<close> and writes
  to the site directory joined with \<open>demos\<close>: the destinations carry the logical names,
  and \<open>dist\<close> is never read nor \<open>build\<close> written.
\<close>

theorem publish_uses_logical_names:
  assumes "cfg ''site_dir'' = Some (Str site)"
    and "copy_static_files cfg kw st = (r, st')"
  shows "\<exists>tr1 tr2. trace st' = trace st @ tr1 @ tr2 \<and>
           job_calls ''build'' (path_join site ''dist'') tr1 \<and>
           (tr2 = [] \<or> job_calls ''demos'' (path_join site ''demos'') tr2)"
proof -
  obtain r1 st1 where j1: "copy_directory ''dist'' (Str site) st = (r1, st1)"
    by (cases "copy_directory ''dist'' (Str site) st")
  from copy_directory_trace [OF j1] obtain tr1 where
    tr1: "trace st1 = trace st @ tr1" "job_calls ''build'' (path_join site ''dist'') tr1"
    by (auto simp: source_of_simps)
  show ?thesis
  proof (cases r1)
    case (Inl e)
    then have "st' = st1"
      using assms j1 by (simp add: copy_static_files_unfold)
    then show ?thesis using tr1 by (intro exI [of _ tr1] exI [of _ "[]"]) simp
  next
    case (Inr u)
    then have "copy_directory ''demos'' (Str site) st1 = (r, st')"
      using assms j1 by (simp add: copy_static_files_unfold)
    from copy_directory_trace [OF this] obtain tr2 where
      "trace st' = trace st1 @ tr2" "job_calls ''demos'' (path_join site ''demos'') tr2"
      by (auto simp: source_of_simps)
    then show ?thesis using tr1 by (intro exI [of _ tr1] exI [of _ tr2]) simp
  qed
qed

theorem publish_uses_logical_names_witness:
  "[''site_dir'' \<mapsto> Str ''/out''] ''site_dir'' = Some (Str ''/out'') \<and>
   (\<exists>tr1 tr2.
      trace (snd (copy_static_files [''site_dir'' \<mapsto> Str ''/out''] Map.empty
                   (scenario ''a'' 1 ''b'' 2 0))) =
        trace (scenario ''a'' 1 ''b'' 2 0) @ tr1 @ tr2 \<and>
      job_calls ''build'' (path_join ''/out'' ''dist'') tr1 \<and>
      (tr2 = [] \<or> job_calls ''demos'' (path_join ''/out'' ''demos'') tr2)) \<and>
   trace (snd (copy_static_files [''site_dir'' \<mapsto> Str ''/out''] Map.empty
                (scenario ''a'' 1 ''b'' 2 0))) =
     [Makedirs ''/out/dist'' True, Listdir ''build'',
      Isdir ''build/app.js'', Copy2 ''build/app.js'' ''/out/dist/app.js'',
      Makedirs ''/out/demos'' True, Listdir ''demos'',
      Isdir ''demos/demo1'', Copytree ''demos/demo1'' ''/out/demos/demo1'' False]"
proof -
  have h: "[''site_dir'' \<mapsto> Str ''/out''] ''site_dir'' = Some (Str ''/out'')"
    by simp
  have t: "trace (snd (copy_static_files [''site_dir'' \<mapsto> Str ''/out''] Map.empty
                (scenario ''a'' 1 ''b'' 2 0))) =
     [Makedirs ''/out/dist'' True, Listdir ''build'',
      Isdir ''build/app.js'', Copy2 ''build/app.js'' ''/out/dist/app.js'',
      Makedirs ''/out/demos'' True, Listdir ''demos'',
      Isdir ''demos/demo1'', Copytree ''demos/demo1'' ''/out/demos/demo1'' False]"
    by code_simp
  let ?run = "copy_static_files [''site_dir'' \<mapsto> Str ''/out''] Map.empty
                (scenario ''a'' 1 ''b'' 2 0)"
  have p: "?run = (fst ?run, snd ?run)" by simp
  show ?thesis
    using h t publish_uses_logical_names
      [where cfg = "[''site_dir'' \<mapsto> Str ''/out'']" and site = "''/out''"
         and kw = Map.empty and st = "scenario ''a'' 1 ''b'' 2 0"
         and r = "fst ?run" and st' = "snd ?run", OF h p]
    by blast
qed

text \<open>
  C3. A second run on the state a first run leaves is claimed to succeed with the same
  content. On the scenario the first run returns normally and the second raises
  \<open>FileExistsError\<close>: \<open>shutil.copytree\<close> refuses the directory \<open>/out/demos/demo1\<close>
  that the first run made. (The file system is the same after both runs.)
\<close>

theorem second_publish_raises:
  "case copy_static_files [''site_dir'' \<mapsto> Str ''/out''] kw (scenario c1 m1 c2 m2 n) of
     (r1, st1) \<Rightarrow>
       r1 = Inr () \<and>
       (case copy_static_files [''site_dir'' \<mapsto> Str ''/out''] kw' st1 of
          (r2, st2) \<Rightarrow> r2 = Inl FileExistsError \<and> world st2 = world st1)"
  by code_simp












text \<open>
  C10. In every run of \<open>copy_directory\<close> (for a directory name without slash, other than
  \<open>.\<close>) the first call makes the destination, and the listing of the source comes
  second, if the run gets that far. Once the run is past \<open>makedirs\<close> the destination is
  a directory in the state the run ends in, whether it returns or raises. In particular,
  when \<open>makedirs\<close> has returned and the listing of the source raises (the source is
  missing), \<open>copy_directory\<close> raises that error, and the state is the one \<open>makedirs\<close>
  left, with the destination in it.
\<close>

theorem destination_made_before_listing:
  assumes "dir_path \<noteq> []" and "sep \<notin> set dir_path" and "dir_path \<noteq> ''.''"
    and "copy_directory dir_path (Str site) st = (r, st')"
  shows "\<exists>tr. trace st' = trace st @ Makedirs (path_join site dir_path) True # tr \<and>
           (tr \<noteq> [] \<longrightarrow>
              hd tr = Listdir (source_of dir_path) \<and>
              os_path_isdir (world st') (path_join site dir_path)) \<and>
           (\<forall>w1 e. os_makedirs (path_join site dir_path) True (world st) = (Inr (), w1) \<longrightarrow>
              os_listdir w1 (source_of dir_path) = Inl e \<longrightarrow>
              r = Inl e \<and> tr = [Listdir (source_of dir_path)] \<and> world st' = w1 \<and>
              os_path_isdir w1 (path_join site dir_path))"
proof -
  let ?d = "path_join site dir_path" and ?s = "source_of dir_path"
  obtain r1 st1 where mk: "call_makedirs ?d True st = (r1, st1)"
    by (cases "call_makedirs ?d True st")
  have t1: "trace st1 = trace st @ [Makedirs ?d True]"
    using call_makedirs_trace [OF mk] by simp
  have w1: "os_makedirs ?d True (world st) = (r1, world st1)"
    using mk by (rule call_makedirs_world)
  show ?thesis
  proof (cases r1)
    case (Inl e)
    then have "st' = st1" using assms(4) mk by (simp add: copy_directory_unfold)
    then show ?thesis using t1 w1 Inl by (intro exI [of _ "[]"]) simp
  next
    case (Inr u)
    then have ct: "copy_tree ?s ?d False None st1 = (r, st')"
      using assms(4) mk by (simp add: copy_directory_unfold)
    have d1: "os_path_isdir (world st1) ?d"
      using makedirs_join_isdir [OF _ assms(1,2,3)] w1 Inr by simp
    have "continues (world st1) (world st')" using ct by (rule copy_tree_continues)
    then have d2: "os_path_isdir (world st') ?d" using d1 by (rule isdir_continues)
    from copy_tree_trace [OF ct] obtain tr where
      tr: "trace st' = trace st1 @ Listdir ?s # tr"
      and c: "case os_listdir (world st1) ?s of
        Inl e \<Rightarrow> r = Inl e \<and> tr = [] \<and> world st' = world st1
      | Inr items \<Rightarrow>
          (\<exists>n. n \<le> length items \<and> items_calls ?s ?d False (take n items) tr \<and>
               (r = Inr () \<longrightarrow> n = length items) \<and> (r \<noteq> Inr () \<longrightarrow> tr \<noteq> []))"
      by blast
    have "\<forall>w1 e. os_makedirs ?d True (world st) = (Inr (), w1) \<longrightarrow>
              os_listdir w1 ?s = Inl e \<longrightarrow>
              r = Inl e \<and> Listdir ?s # tr = [Listdir ?s] \<and> world st' = w1 \<and>
              os_path_isdir w1 ?d"
      using w1 c d1 by auto
    then show ?thesis
      using tr t1 d2 by (intro exI [of _ "Listdir ?s # tr"]) simp
  qed
qed

theorem destination_made_before_listing_witness:
  "''dist'' \<noteq> [] \<and> sep \<notin> set ''dist'' \<and> ''dist'' \<noteq> ''.'' \<and>
   fst (copy_directory ''dist'' (Str ''/out'') no_build_state) = Inl FileNotFoundError \<and>
   trace (snd (copy_directory ''dist'' (Str ''/out'') no_build_state)) =
     trace no_build_state @ [Makedirs ''/out/dist'' True, Listdir ''build''] \<and>
   os_path_isdir (world (snd (copy_directory ''dist'' (Str ''/out'') no_build_state)))
     ''/out/dist'' \<and>
   \<not> os_path_isdir (world no_build_state) ''/out/dist'' \<and>
   os_listdir (world (snd (copy_directory ''dist'' (Str ''/out'') no_build_state))) ''build'' =
     Inl FileNotFoundError"
proof -
  let ?job = "copy_directory ''dist'' (Str ''/out'') no_build_state"
  have h: "''dist'' \<noteq> []" "sep \<notin> set ''dist''" "''dist'' \<noteq> ''.''"
    by (simp_all add: sep_def)
  have p: "?job = (fst ?job, snd ?job)" by simp
  have j: "path_join ''/out'' ''dist'' = ''/out/dist''" by code_simp
  have s: "source_of ''dist'' = ''build''" by (simp add: source_of_def)
  have r: "fst ?job = Inl FileNotFoundError" by code_simp
  have t: "trace (snd ?job) = trace no_build_state @ [Makedirs ''/out/dist'' True, Listdir ''build'']"
    by code_simp
  have n: "\<not> os_path_isdir (world no_build_state) ''/out/dist''" by code_simp
  have l: "os_listdir (world (snd ?job)) ''build'' = Inl FileNotFoundError" by code_simp
  from destination_made_before_listing [OF h p] obtain tr where
    tr: "trace (snd ?job) = trace no_build_state @ Makedirs ''/out/dist'' True # tr"
    and d: "tr \<noteq> [] \<longrightarrow> hd tr = Listdir ''build'' \<and> os_path_isdir (world (snd ?job)) ''/out/dist''"
    unfolding j s by blast
  have "tr \<noteq> []" using tr t by auto
  then have "os_path_isdir (world (snd ?job)) ''/out/dist''" using d by simp
  then show ?thesis using h r t n l by simp
qed

text \<open>
  C4. For a job whose directory name is an ordinary name (\<open>dist\<close> and \<open>demos\<close> are), with
  \<open>d\<close> the destination \<open>site_dir/dir_path\<close>. The calls of a run are those of a job, with
  \<open>makedirs\<close> first and every copy after it. The run is \<open>os.makedirs(d, exist_ok=True)\<close>
  on the world it starts in and, when that raises, nothing more; when it returns, \<open>d\<close> is a
  directory in the world it leaves, \<open>copy_tree\<close> runs in that world, \<open>d\<close> is a directory in
  every state the loop over the entries reaches, so it is there whenever an entry is
  copied, and it is one in the state the run ends in, whether the run returns or raises.
  A destination that is a directory already makes \<open>makedirs\<close> return normally and change
  nothing, and the run is \<open>copy_tree\<close> in the unchanged world. For a site directory written
  with ordinary names, absolute (\<open>/n1/.../nk\<close>) or relative to the working directory
  (\<open>n1/.../nk\<close>), on whose way, down to the destination, there are only directories or
  nothing (the site directory need not exist): \<open>makedirs\<close> returns normally; afterwards the
  whole path, the site directory and the destination included, is made of directories;
  the only thing that has changed is that directories on that path which were missing are
  there; \<open>copy_tree\<close> runs in that world; and the path is still made of directories in the
  state the run ends in.
\<close>

theorem destination_exists_before_copying:
  assumes "name_ok dir_path"
  shows
    "(copy_directory dir_path (Str site) st = (r, st') \<longrightarrow>
       (\<exists>tr. trace st' = trace st @ tr \<and>
             job_calls (source_of dir_path) (path_join site dir_path) tr)) \<and>
     (os_makedirs (path_join site dir_path) True (world st) = (rm, wm) \<longrightarrow>
       (case rm of
          Inl e \<Rightarrow>
            copy_directory dir_path (Str site) st =
              (Inl e,
               st\<lparr>world := wm, trace := trace st @ [Makedirs (path_join site dir_path) True]\<rparr>)
        | Inr u \<Rightarrow>
            os_path_isdir wm (path_join site dir_path) \<and>
            copy_directory dir_path (Str site) st =
              copy_tree (source_of dir_path) (path_join site dir_path) False None
                (st\<lparr>world := wm,
                    trace := trace st @ [Makedirs (path_join site dir_path) True]\<rparr>) \<and>
            (\<forall>xs r2 st2.
               copy_tree_items (source_of dir_path) (path_join site dir_path) False None xs
                 (st\<lparr>world := wm,
                     trace := trace st @ [Makedirs (path_join site dir_path) True,
                                          Listdir (source_of dir_path)]\<rparr>) = (r2, st2) \<longrightarrow>
               os_path_isdir (world st2) (path_join site dir_path)) \<and>
            os_path_isdir (world (snd (copy_directory dir_path (Str site) st)))
              (path_join site dir_path))) \<and>
     (os_path_isdir (world st) (path_join site dir_path) \<longrightarrow>
       os_makedirs (path_join site dir_path) True (world st) = (Inr (), world st) \<and>
       copy_directory dir_path (Str site) st =
         copy_tree (source_of dir_path) (path_join site dir_path) False None
           (st\<lparr>trace := trace st @ [Makedirs (path_join site dir_path) True]\<rparr>)) \<and>
     (list_all name_ok ns \<longrightarrow> ns \<noteq> [] \<longrightarrow> site = path_name rooted ns \<longrightarrow>
      is_dir (inode_at (files (world st)) (base rooted (world st))) \<longrightarrow>
      clear (files (world st)) (base rooted (world st)) (ns @ [dir_path]) \<longrightarrow>
       (\<exists>w2. os_makedirs (path_join site dir_path) True (world st) = (Inr (), w2) \<and>
             alldirs (files w2) (base rooted (world st)) (ns @ [dir_path]) \<and>
             dirs_made (base rooted (world st)) (ns @ [dir_path]) (world st) w2 \<and>
             copy_directory dir_path (Str site) st =
               copy_tree (source_of dir_path) (path_join site dir_path) False None
                 (st\<lparr>world := w2,
                     trace := trace st @ [Makedirs (path_join site dir_path) True]\<rparr>) \<and>
             alldirs (files (world (snd (copy_directory dir_path (Str site) st))))
               (base rooted (world st)) (ns @ [dir_path])))"
proof -
  let ?d = "path_join site dir_path" and ?s = "source_of dir_path"
  have t: "dir_path \<noteq> []" "sep \<notin> set dir_path" "dir_path \<noteq> ''.''"
    using assms by (simp_all add: name_ok_def plain_def)
  have A: "copy_directory dir_path (Str site) st = (r, st') \<longrightarrow>
       (\<exists>tr. trace st' = trace st @ tr \<and> job_calls ?s ?d tr)"
    using copy_directory_trace by blast
  have B: "os_makedirs ?d True (world st) = (rm, wm) \<longrightarrow>
       (case rm of
          Inl e \<Rightarrow>
            copy_directory dir_path (Str site) st =
              (Inl e, st\<lparr>world := wm, trace := trace st @ [Makedirs ?d True]\<rparr>)
        | Inr u \<Rightarrow>
            os_path_isdir wm ?d \<and>
            copy_directory dir_path (Str site) st =
              copy_tree ?s ?d False None
                (st\<lparr>world := wm, trace := trace st @ [Makedirs ?d True]\<rparr>) \<and>
            (\<forall>xs r2 st2.
               copy_tree_items ?s ?d False None xs
                 (st\<lparr>world := wm, trace := trace st @ [Makedirs ?d True, Listdir ?s]\<rparr>)
                   = (r2, st2) \<longrightarrow>
               os_path_isdir (world st2) ?d) \<and>
            os_path_isdir (world (snd (copy_directory dir_path (Str site) st))) ?d)"
  proof
    assume mk: "os_makedirs ?d True (world st) = (rm, wm)"
    note cd = copy_directory_world [OF mk]
    show "case rm of
          Inl e \<Rightarrow>
            copy_directory dir_path (Str site) st =
              (Inl e, st\<lparr>world := wm, trace := trace st @ [Makedirs ?d True]\<rparr>)
        | Inr u \<Rightarrow>
            os_path_isdir wm ?d \<and>
            copy_directory dir_path (Str site) st =
              copy_tree ?s ?d False None
                (st\<lparr>world := wm, trace := trace st @ [Makedirs ?d True]\<rparr>) \<and>
            (\<forall>xs r2 st2.
               copy_tree_items ?s ?d False None xs
                 (st\<lparr>world := wm, trace := trace st @ [Makedirs ?d True, Listdir ?s]\<rparr>)
                   = (r2, st2) \<longrightarrow>
               os_path_isdir (world st2) ?d) \<and>
            os_path_isdir (world (snd (copy_directory dir_path (Str site) st))) ?d"
    proof (cases rm)
      case (Inl e)
      then show ?thesis using cd by simp
    next
      case (Inr u)
      have d1: "os_path_isdir wm ?d"
        using makedirs_join_isdir [OF _ t] mk Inr by simp
      have e: "copy_directory dir_path (Str site) st =
          copy_tree ?s ?d False None (st\<lparr>world := wm, trace := trace st @ [Makedirs ?d True]\<rparr>)"
        using cd Inr by simp
      have l: "\<forall>xs r2 st2.
               copy_tree_items ?s ?d False None xs
                 (st\<lparr>world := wm, trace := trace st @ [Makedirs ?d True, Listdir ?s]\<rparr>)
                   = (r2, st2) \<longrightarrow>
               os_path_isdir (world st2) ?d"
      proof (intro allI impI)
        fix xs r2 st2
        assume "copy_tree_items ?s ?d False None xs
                 (st\<lparr>world := wm, trace := trace st @ [Makedirs ?d True, Listdir ?s]\<rparr>)
                   = (r2, st2)"
        from copy_tree_items_continues [OF this]
        have "continues wm (world st2)" by simp
        then show "os_path_isdir (world st2) ?d" using d1 by (rule isdir_continues)
      qed
      obtain r3 st3 where c: "copy_tree ?s ?d False None
          (st\<lparr>world := wm, trace := trace st @ [Makedirs ?d True]\<rparr>) = (r3, st3)"
        by (cases "copy_tree ?s ?d False None
          (st\<lparr>world := wm, trace := trace st @ [Makedirs ?d True]\<rparr>)")
      from copy_tree_continues [OF c] have "continues wm (world st3)" by simp
      then have "os_path_isdir (world st3) ?d" using d1 by (rule isdir_continues)
      then have f: "os_path_isdir (world (snd (copy_directory dir_path (Str site) st))) ?d"
        using e c by simp
      show ?thesis using Inr d1 e l f by simp
    qed
  qed
  have C: "os_path_isdir (world st) ?d \<longrightarrow>
       os_makedirs ?d True (world st) = (Inr (), world st) \<and>
       copy_directory dir_path (Str site) st =
         copy_tree ?s ?d False None (st\<lparr>trace := trace st @ [Makedirs ?d True]\<rparr>)"
  proof
    assume "os_path_isdir (world st) ?d"
    from makedirs_existing [OF this t(1,2)]
    have mk: "os_makedirs ?d True (world st) = (Inr (), world st)" .
    show "os_makedirs ?d True (world st) = (Inr (), world st) \<and>
       copy_directory dir_path (Str site) st =
         copy_tree ?s ?d False None (st\<lparr>trace := trace st @ [Makedirs ?d True]\<rparr>)"
      using mk copy_directory_world [OF mk] by simp
  qed
  have D: "list_all name_ok ns \<longrightarrow> ns \<noteq> [] \<longrightarrow> site = path_name rooted ns \<longrightarrow>
      is_dir (inode_at (files (world st)) (base rooted (world st))) \<longrightarrow>
      clear (files (world st)) (base rooted (world st)) (ns @ [dir_path]) \<longrightarrow>
       (\<exists>w2. os_makedirs ?d True (world st) = (Inr (), w2) \<and>
             alldirs (files w2) (base rooted (world st)) (ns @ [dir_path]) \<and>
             dirs_made (base rooted (world st)) (ns @ [dir_path]) (world st) w2 \<and>
             copy_directory dir_path (Str site) st =
               copy_tree ?s ?d False None
                 (st\<lparr>world := w2, trace := trace st @ [Makedirs ?d True]\<rparr>) \<and>
             alldirs (files (world (snd (copy_directory dir_path (Str site) st))))
               (base rooted (world st)) (ns @ [dir_path]))"
  proof (intro impI)
    assume ns: "list_all name_ok ns" "ns \<noteq> []" "site = path_name rooted ns"
      and b: "is_dir (inode_at (files (world st)) (base rooted (world st)))"
      and cl: "clear (files (world st)) (base rooted (world st)) (ns @ [dir_path])"
    let ?b = "base rooted (world st)"
    have d: "?d = path_name rooted (ns @ [dir_path])"
      using path_join_name [OF ns(1,2) assms] ns(3) by simp
    have ok: "list_all name_ok (ns @ [dir_path])" using ns(1) assms by simp
    have nn: "ns @ [dir_path] \<noteq> []" by simp
    from os_makedirs_name [OF nn ok cl b] obtain w2 where
      w2: "os_makedirs ?d True (world st) = (Inr (), w2)"
        "alldirs (files w2) ?b (ns @ [dir_path])"
        "dirs_made ?b (ns @ [dir_path]) (world st) w2"
      using d by auto
    have e: "copy_directory dir_path (Str site) st =
          copy_tree ?s ?d False None (st\<lparr>world := w2, trace := trace st @ [Makedirs ?d True]\<rparr>)"
      using copy_directory_world [OF w2(1)] by simp
    obtain r3 st3 where c: "copy_tree ?s ?d False None
          (st\<lparr>world := w2, trace := trace st @ [Makedirs ?d True]\<rparr>) = (r3, st3)"
      by (cases "copy_tree ?s ?d False None
          (st\<lparr>world := w2, trace := trace st @ [Makedirs ?d True]\<rparr>)")
    from copy_tree_continues [OF c] have "continues w2 (world st3)" by simp
    from continues_alldirs [OF this w2(2)]
    have f: "alldirs (files (world (snd (copy_directory dir_path (Str site) st)))) ?b
        (ns @ [dir_path])"
      using e c by simp
    show "\<exists>w2. os_makedirs ?d True (world st) = (Inr (), w2) \<and>
             alldirs (files w2) ?b (ns @ [dir_path]) \<and>
             dirs_made ?b (ns @ [dir_path]) (world st) w2 \<and>
             copy_directory dir_path (Str site) st =
               copy_tree ?s ?d False None
                 (st\<lparr>world := w2, trace := trace st @ [Makedirs ?d True]\<rparr>) \<and>
             alldirs (files (world (snd (copy_directory dir_path (Str site) st)))) ?b
               (ns @ [dir_path])"
      using w2 e f by blast
  qed
  show ?thesis using A B C D by blast
qed


theorem destination_exists_before_copying_witness:
  "name_ok ''dist'' \<and> name_ok ''demos'' \<and> list_all name_ok [''out''] \<and>
   ''/out'' = path_name True [''out''] \<and> ''out'' = path_name False [''out''] \<and>
   \<not> os_path_exists (world (scenario ''a'' 1 ''b'' 2 0)) ''/out'' \<and>
   clear (files (world (scenario ''a'' 1 ''b'' 2 0))) [] [''out'', ''dist''] \<and>
   fst (os_makedirs ''/out/dist'' True (world (scenario ''a'' 1 ''b'' 2 0))) = Inr () \<and>
   alldirs (files (snd (os_makedirs ''/out/dist'' True (world (scenario ''a'' 1 ''b'' 2 0)))))
     [] [''out'', ''dist''] \<and>
   dirs_made [] [''out'', ''dist''] (world (scenario ''a'' 1 ''b'' 2 0))
     (snd (os_makedirs ''/out/dist'' True (world (scenario ''a'' 1 ''b'' 2 0)))) \<and>
   copy_directory ''dist'' (Str ''/out'') (scenario ''a'' 1 ''b'' 2 0) =
     copy_tree ''build'' ''/out/dist'' False None
       ((scenario ''a'' 1 ''b'' 2 0)
          \<lparr>world := snd (os_makedirs ''/out/dist'' True (world (scenario ''a'' 1 ''b'' 2 0))),
           trace := trace (scenario ''a'' 1 ''b'' 2 0) @ [Makedirs ''/out/dist'' True]\<rparr>) \<and>
   alldirs (files (world (snd (copy_directory ''dist'' (Str ''/out'') (scenario ''a'' 1 ''b'' 2 0)))))
     [] [''out'', ''dist''] \<and>
   os_path_isdir (snd (os_makedirs ''/out/dist'' True (world (scenario ''a'' 1 ''b'' 2 0))))
     ''/out/dist'' \<and>
   os_path_isdir
     (world (snd (copy_tree_items ''build'' ''/out/dist'' False None [''app.js'']
        ((scenario ''a'' 1 ''b'' 2 0)
           \<lparr>world := snd (os_makedirs ''/out/dist'' True (world (scenario ''a'' 1 ''b'' 2 0))),
            trace := trace (scenario ''a'' 1 ''b'' 2 0) @
              [Makedirs ''/out/dist'' True, Listdir ''build'']\<rparr>))))
     ''/out/dist'' \<and>
   os_path_isdir (world (snd (copy_directory ''dist'' (Str ''/out'') (scenario ''a'' 1 ''b'' 2 0))))
     ''/out/dist'' \<and>
   \<not> os_path_exists (world (scenario ''a'' 1 ''b'' 2 0)) ''out'' \<and>
   is_dir (inode_at (files (world (scenario ''a'' 1 ''b'' 2 0))) [''repo'']) \<and>
   clear (files (world (scenario ''a'' 1 ''b'' 2 0))) [''repo''] [''out'', ''demos''] \<and>
   fst (os_makedirs ''out/demos'' True (world (scenario ''a'' 1 ''b'' 2 0))) = Inr () \<and>
   alldirs (files (snd (os_makedirs ''out/demos'' True (world (scenario ''a'' 1 ''b'' 2 0)))))
     [''repo''] [''out'', ''demos''] \<and>
   alldirs (files (world (snd (copy_directory ''demos'' (Str ''out'') (scenario ''a'' 1 ''b'' 2 0)))))
     [''repo''] [''out'', ''demos''] \<and>
   os_path_isdir (world rerun_state) ''/out/demos'' \<and>
   os_makedirs ''/out/demos'' True (world rerun_state) = (Inr (), world rerun_state) \<and>
   copy_directory ''demos'' (Str ''/out'') rerun_state =
     copy_tree ''demos'' ''/out/demos'' False None
       (rerun_state\<lparr>trace := trace rerun_state @ [Makedirs ''/out/demos'' True]\<rparr>) \<and>
   os_makedirs ''/out/demos/a.txt/dist'' True (world overwrite_state) =
     (Inl NotADirectoryError, world overwrite_state) \<and>
   copy_directory ''dist'' (Str ''/out/demos/a.txt'') overwrite_state =
     (Inl NotADirectoryError,
      overwrite_state\<lparr>world := world overwrite_state,
        trace := trace overwrite_state @ [Makedirs ''/out/demos/a.txt/dist'' True]\<rparr>) \<and>
   (\<exists>tr. trace (snd (copy_directory ''dist'' (Str ''/out'') (scenario ''a'' 1 ''b'' 2 0))) =
           trace (scenario ''a'' 1 ''b'' 2 0) @ tr \<and>
         job_calls ''build'' ''/out/dist'' tr)"
proof -
  let ?S = "scenario ''a'' 1 ''b'' 2 0"
  let ?mk = "os_makedirs ''/out/dist'' True (world ?S)"
  let ?mr = "os_makedirs ''out/demos'' True (world ?S)"
  have n1: "name_ok ''dist''" and n2: "name_ok ''demos''"
    by (simp_all add: name_ok_def plain_def sep_def)
  have n3: "list_all name_ok [''out'']" by (simp add: name_ok_def plain_def sep_def)
  have a1: "''/out'' = path_name True [''out'']"
    and a2: "''out'' = path_name False [''out'']"
    by (simp_all add: path_name_def abs_name_def sep_def)
  have ne: "[''out''] \<noteq> ([] :: string list)" by simp
  have j1: "path_join ''/out'' ''dist'' = ''/out/dist''"
    and j2: "path_join ''/out'' ''demos'' = ''/out/demos''"
    and j3: "path_join ''out'' ''demos'' = ''out/demos''"
    and j4: "path_join ''/out/demos/a.txt'' ''dist'' = ''/out/demos/a.txt/dist''"
    by code_simp+
  have s1: "source_of ''dist'' = ''build''" and s2: "source_of ''demos'' = ''demos''"
    by (simp_all add: source_of_def)
  have b1: "base True (world ?S) = []" and b2: "base False (world ?S) = [''repo'']"
    by (simp_all add: base_def scenario_def)
  note dist = destination_exists_before_copying [OF n1, where site = "''/out''", unfolded j1 s1]
  note demos = destination_exists_before_copying [OF n2, where site = "''/out''", unfolded j2 s2]
  note rel = destination_exists_before_copying [OF n2, where site = "''out''", unfolded j3 s2]
  note bad = destination_exists_before_copying [OF n1, where site = "''/out/demos/a.txt''",
      unfolded j4 s1]
  \<comment> \<open>the site directory does not exist: an absolute name\<close>
  have e1: "\<not> os_path_exists (world ?S) ''/out''" by code_simp
  have c1: "clear (files (world ?S)) [] [''out'', ''dist'']" by code_simp
  have c1': "clear (files (world ?S)) (base True (world ?S)) ([''out''] @ [''dist''])"
    using c1 b1 by simp
  have r1: "is_dir (inode_at (files (world ?S)) (base True (world ?S)))" using b1 by simp
  have "\<exists>w2. ?mk = (Inr (), w2) \<and>
      alldirs (files w2) (base True (world ?S)) ([''out''] @ [''dist'']) \<and>
      dirs_made (base True (world ?S)) ([''out''] @ [''dist'']) (world ?S) w2 \<and>
      copy_directory ''dist'' (Str ''/out'') ?S =
        copy_tree ''build'' ''/out/dist'' False None
          (?S\<lparr>world := w2, trace := trace ?S @ [Makedirs ''/out/dist'' True]\<rparr>) \<and>
      alldirs (files (world (snd (copy_directory ''dist'' (Str ''/out'') ?S))))
        (base True (world ?S)) ([''out''] @ [''dist''])"
    by (rule dist [where st = ?S and ns = "[''out'']" and rooted = True,
          THEN conjunct2, THEN conjunct2, THEN conjunct2, rule_format, OF n3 ne a1 r1 c1'])
  then have m1: "fst ?mk = Inr ()"
    and m2: "alldirs (files (snd ?mk)) [] [''out'', ''dist'']"
    and m3: "dirs_made [] [''out'', ''dist''] (world ?S) (snd ?mk)"
    and m4: "copy_directory ''dist'' (Str ''/out'') ?S =
        copy_tree ''build'' ''/out/dist'' False None
          (?S\<lparr>world := snd ?mk, trace := trace ?S @ [Makedirs ''/out/dist'' True]\<rparr>)"
    and m5: "alldirs (files (world (snd (copy_directory ''dist'' (Str ''/out'') ?S))))
        [] [''out'', ''dist'']"
    unfolding b1 by auto
  \<comment> \<open>the destination is there when the entries are copied\<close>
  have p1: "?mk = (Inr (), snd ?mk)" using m1 by (cases ?mk) simp
  note b = dist [where st = ?S and rm = "Inr ()" and wm = "snd ?mk",
      THEN conjunct2, THEN conjunct1, rule_format, OF p1, simplified sum.case]
  have d1: "os_path_isdir (snd ?mk) ''/out/dist''" by (rule b [THEN conjunct1])
  let ?loop = "copy_tree_items ''build'' ''/out/dist'' False None [''app.js'']
        (?S\<lparr>world := snd ?mk,
            trace := trace ?S @ [Makedirs ''/out/dist'' True, Listdir ''build'']\<rparr>)"
  have l: "?loop = (fst ?loop, snd ?loop)" by simp
  have d2: "os_path_isdir (world (snd ?loop)) ''/out/dist''"
    by (rule b [THEN conjunct2, THEN conjunct2, THEN conjunct1, rule_format, OF l])
  have d3: "os_path_isdir (world (snd (copy_directory ''dist'' (Str ''/out'') ?S))) ''/out/dist''"
    by (rule b [THEN conjunct2, THEN conjunct2, THEN conjunct2])
  \<comment> \<open>the site directory does not exist: a relative name\<close>
  have e2: "\<not> os_path_exists (world ?S) ''out''" by code_simp
  have r2: "is_dir (inode_at (files (world ?S)) [''repo''])" by code_simp
  have c2: "clear (files (world ?S)) [''repo''] [''out'', ''demos'']" by code_simp
  have r2': "is_dir (inode_at (files (world ?S)) (base False (world ?S)))" using r2 b2 by simp
  have c2': "clear (files (world ?S)) (base False (world ?S)) ([''out''] @ [''demos''])"
    using c2 b2 by simp
  have "\<exists>w2. ?mr = (Inr (), w2) \<and>
      alldirs (files w2) (base False (world ?S)) ([''out''] @ [''demos'']) \<and>
      dirs_made (base False (world ?S)) ([''out''] @ [''demos'']) (world ?S) w2 \<and>
      copy_directory ''demos'' (Str ''out'') ?S =
        copy_tree ''demos'' ''out/demos'' False None
          (?S\<lparr>world := w2, trace := trace ?S @ [Makedirs ''out/demos'' True]\<rparr>) \<and>
      alldirs (files (world (snd (copy_directory ''demos'' (Str ''out'') ?S))))
        (base False (world ?S)) ([''out''] @ [''demos''])"
    by (rule rel [where st = ?S and ns = "[''out'']" and rooted = False,
          THEN conjunct2, THEN conjunct2, THEN conjunct2, rule_format, OF n3 ne a2 r2' c2'])
  then have q1: "fst ?mr = Inr ()"
    and q2: "alldirs (files (snd ?mr)) [''repo''] [''out'', ''demos'']"
    and q3: "alldirs (files (world (snd (copy_directory ''demos'' (Str ''out'') ?S))))
        [''repo''] [''out'', ''demos'']"
    unfolding b2 by auto
  \<comment> \<open>a destination that exists\<close>
  have x1: "os_path_isdir (world rerun_state) ''/out/demos''" by code_simp
  note x = demos [where st = rerun_state, THEN conjunct2, THEN conjunct2, THEN conjunct1,
      rule_format, OF x1]
  have x2: "os_makedirs ''/out/demos'' True (world rerun_state) = (Inr (), world rerun_state)"
    by (rule x [THEN conjunct1])
  have x3: "copy_directory ''demos'' (Str ''/out'') rerun_state =
     copy_tree ''demos'' ''/out/demos'' False None
       (rerun_state\<lparr>trace := trace rerun_state @ [Makedirs ''/out/demos'' True]\<rparr>)"
    by (rule x [THEN conjunct2])
  \<comment> \<open>makedirs raises\<close>
  have y1: "os_makedirs ''/out/demos/a.txt/dist'' True (world overwrite_state) =
     (Inl NotADirectoryError, world overwrite_state)" by code_simp
  have y2: "copy_directory ''dist'' (Str ''/out/demos/a.txt'') overwrite_state =
     (Inl NotADirectoryError,
      overwrite_state\<lparr>world := world overwrite_state,
        trace := trace overwrite_state @ [Makedirs ''/out/demos/a.txt/dist'' True]\<rparr>)"
    by (rule bad [where st = overwrite_state and rm = "Inl NotADirectoryError"
          and wm = "world overwrite_state",
          THEN conjunct2, THEN conjunct1, rule_format, OF y1, simplified sum.case])
  \<comment> \<open>the calls of a run\<close>
  let ?job = "copy_directory ''dist'' (Str ''/out'') ?S"
  have p: "?job = (fst ?job, snd ?job)" by simp
  have t: "\<exists>tr. trace (snd ?job) = trace ?S @ tr \<and> job_calls ''build'' ''/out/dist'' tr"
    by (rule dist [where st = ?S and r = "fst ?job" and st' = "snd ?job", THEN conjunct1,
          rule_format, OF p])
  show ?thesis
    by (intro conjI n1 n2 n3 a1 a2 e1 c1 m1 m2 m3 m4 m5 d1 d2 d3 e2 r2 c2 q1 q2 q3 x1 x2 x3
        y1 y2 t)
qed






end
